theory Spec2Isabelle
  imports Main "HOL-Library.Product_Lexorder"
begin

section \<open>Python strings\<close>

text \<open>
  A Python \<open>str\<close> is a sequence of Unicode code points; a code point is a natural
  number. String literals of the source are written as Isabelle literals and turned
  into code points by \<open>ustr\<close>.
\<close>

type_synonym pystr = "nat list"

definition ustr :: "string \<Rightarrow> pystr" where
  "ustr s = map of_char s"

text \<open>
  \<open>str.isspace\<close> of one code point: the characters whose bidirectional class is WS, B
  or S, or whose general category is Zs (CPython's \<open>_PyUnicode_IsWhitespace\<close>).
\<close>

definition isspace :: "nat \<Rightarrow> bool" where
  "isspace c =
     ((9 \<le> c \<and> c \<le> 13) \<or> (28 \<le> c \<and> c \<le> 32) \<or> c = 133 \<or> c = 160 \<or> c = 5760 \<or>
      (8192 \<le> c \<and> c \<le> 8202) \<or> c = 8232 \<or> c = 8233 \<or> c = 8239 \<or> c = 8287 \<or>
      c = 12288)"

text \<open>\<open>s.strip()\<close>: leading and trailing whitespace removed.\<close>

definition strip :: "pystr \<Rightarrow> pystr" where
  "strip s = rev (dropWhile isspace (rev (dropWhile isspace s)))"

text \<open>
  The line boundaries of \<open>str.splitlines\<close>: LF, VT, FF, CR, FS, GS, RS, NEL, LS and PS;
  CR followed by LF is one boundary.
\<close>

definition is_linebreak :: "nat \<Rightarrow> bool" where
  "is_linebreak c =
     ((10 \<le> c \<and> c \<le> 13) \<or> (28 \<le> c \<and> c \<le> 30) \<or> c = 133 \<or> c = 8232 \<or> c = 8233)"

text \<open>
  \<open>s.splitlines(keepends=True)\<close>: the first argument is the line read so far. A last
  line without a terminator is kept; the empty string has no line.
\<close>

fun splitlines_from :: "pystr \<Rightarrow> pystr \<Rightarrow> pystr list" where
  "splitlines_from line [] = (if line = [] then [] else [line])"
| "splitlines_from line (c # cs) =
     (if c = 13 then
        (case cs of
           [] \<Rightarrow> [line @ [c]]
         | d # ds \<Rightarrow>
             if d = 10 then (line @ [c, d]) # splitlines_from [] ds
             else (line @ [c]) # splitlines_from [] cs)
      else if is_linebreak c then (line @ [c]) # splitlines_from [] cs
      else splitlines_from (line @ [c]) cs)"

definition splitlines :: "pystr \<Rightarrow> pystr list" where
  "splitlines s = splitlines_from [] s"

text \<open>\<open>'{}'.format(n)\<close> for a non-negative integer: its decimal digits.\<close>

fun str_nat :: "nat \<Rightarrow> pystr" where
  "str_nat n = (if n < 10 then [48 + n] else str_nat (n div 10) @ [48 + n mod 10])"

declare str_nat.simps [simp del]

text \<open>\<open>s[:n]\<close> is \<open>take n s\<close>; \<open>a[i1:i2]\<close> for \<open>0 \<le> i1 \<le> i2\<close> is the slice below.\<close>

definition slice :: "'a list \<Rightarrow> nat \<Rightarrow> nat \<Rightarrow> 'a list" where
  "slice a i1 i2 = take (i2 - i1) (drop i1 a)"

section \<open>The standard library's \<open>difflib\<close>\<close>

text \<open>
  \<open>detect_changes\<close> calls \<open>difflib.unified_diff\<close> of the Python standard library. The
  definitions of this section follow CPython's \<open>Lib/difflib.py\<close>, function by function,
  for the way the program calls it: \<open>SequenceMatcher(None, a, b)\<close>, so no junk predicate
  (the set \<open>bjunk\<close> is empty and the two junk-extension loops of
  \<open>find_longest_match\<close> never run), \<open>autojunk\<close> at its default \<open>True\<close>, and \<open>n = 3\<close>
  lines of context. Indices are natural numbers; the library's invariants keep every
  subtraction below from going negative.
\<close>

text \<open>
  \<open>__chain_b\<close>: \<open>b2j\<close> maps an element of \<open>b\<close> to the increasing list of the indices
  where it occurs. With 200 elements or more, an element that occurs more than
  \<open>n // 100 + 1\<close> times is popular and is removed from \<open>b2j\<close>.
\<close>

fun chain_b_loop :: "'a list \<Rightarrow> nat \<Rightarrow> ('a \<rightharpoonup> nat list) \<Rightarrow> ('a \<rightharpoonup> nat list)" where
  "chain_b_loop [] i b2j = b2j"
| "chain_b_loop (elt # b) i b2j =
     chain_b_loop b (Suc i)
       (b2j(elt \<mapsto> (case b2j elt of None \<Rightarrow> [] | Some indices \<Rightarrow> indices) @ [i]))"

definition chain_b :: "'a list \<Rightarrow> ('a \<rightharpoonup> nat list)" where
  "chain_b b =
     (let b2j = chain_b_loop b 0 Map.empty; n = length b in
      if n \<ge> 200 then
        (let ntest = n div 100 + 1 in
         (\<lambda>elt. case b2j elt of
                  None \<Rightarrow> None
                | Some idxs \<Rightarrow> if length idxs > ntest then None else Some idxs))
      else b2j)"

text \<open>
  The inner loop of \<open>find_longest_match\<close>, over the indices \<open>j\<close> of \<open>b\<close> where \<open>a[i]\<close>
  occurs: \<open>continue\<close> below \<open>blo\<close>, \<open>break\<close> from \<open>bhi\<close> on. \<open>j2len.get(j-1, 0)\<close> is 0
  for \<open>j = 0\<close>, where the key \<open>-1\<close> is never stored.
\<close>

type_synonym match = "nat \<times> nat \<times> nat"

fun flm_inner ::
  "nat list \<Rightarrow> nat \<Rightarrow> nat \<Rightarrow> nat \<Rightarrow> (nat \<rightharpoonup> nat) \<Rightarrow> (nat \<rightharpoonup> nat) \<times> match \<Rightarrow> (nat \<rightharpoonup> nat) \<times> match"
where
  "flm_inner [] i blo bhi j2len st = st"
| "flm_inner (j # js) i blo bhi j2len (newj2len, besti, bestj, bestsize) =
     (if j < blo then flm_inner js i blo bhi j2len (newj2len, besti, bestj, bestsize)
      else if j \<ge> bhi then (newj2len, besti, bestj, bestsize)
      else
        (let k = (if j = 0 then 0 else (case j2len (j - 1) of None \<Rightarrow> 0 | Some v \<Rightarrow> v)) + 1
         in if k > bestsize
            then flm_inner js i blo bhi j2len (newj2len(j \<mapsto> k), i + 1 - k, j + 1 - k, k)
            else flm_inner js i blo bhi j2len (newj2len(j \<mapsto> k), besti, bestj, bestsize)))"

text \<open>The outer loop, \<open>for i in range(alo, ahi)\<close>; the second argument is the range.\<close>

fun flm_outer ::
  "'a list \<Rightarrow> ('a \<rightharpoonup> nat list) \<Rightarrow> nat list \<Rightarrow> nat \<Rightarrow> nat \<Rightarrow> (nat \<rightharpoonup> nat) \<times> match \<Rightarrow> match"
where
  "flm_outer a b2j [] blo bhi (j2len, best) = best"
| "flm_outer a b2j (i # is) blo bhi (j2len, best) =
     flm_outer a b2j is blo bhi
       (flm_inner (case b2j (a ! i) of None \<Rightarrow> [] | Some js \<Rightarrow> js) i blo bhi j2len
          (Map.empty, best))"

text \<open>The two loops that extend the best match by equal elements on each end.\<close>

function extend_left :: "'a list \<Rightarrow> 'a list \<Rightarrow> nat \<Rightarrow> nat \<Rightarrow> match \<Rightarrow> match" where
  "extend_left a b alo blo (besti, bestj, bestsize) =
     (if besti > alo \<and> bestj > blo \<and> a ! (besti - 1) = b ! (bestj - 1)
      then extend_left a b alo blo (besti - 1, bestj - 1, bestsize + 1)
      else (besti, bestj, bestsize))"
  by pat_completeness auto
termination
  by (relation "measure (\<lambda>(a, b, alo, blo, besti, bestj, bestsize). besti)") auto

function extend_right :: "'a list \<Rightarrow> 'a list \<Rightarrow> nat \<Rightarrow> nat \<Rightarrow> match \<Rightarrow> match" where
  "extend_right a b ahi bhi (besti, bestj, bestsize) =
     (if besti + bestsize < ahi \<and> bestj + bestsize < bhi \<and>
         a ! (besti + bestsize) = b ! (bestj + bestsize)
      then extend_right a b ahi bhi (besti, bestj, bestsize + 1)
      else (besti, bestj, bestsize))"
  by pat_completeness auto
termination
  by (relation "measure (\<lambda>(a, b, ahi, bhi, besti, bestj, bestsize). ahi - (besti + bestsize))")
    auto

declare extend_left.simps [simp del] extend_right.simps [simp del]

definition find_longest_match ::
  "'a list \<Rightarrow> 'a list \<Rightarrow> ('a \<rightharpoonup> nat list) \<Rightarrow> nat \<Rightarrow> nat \<Rightarrow> nat \<Rightarrow> nat \<Rightarrow> match"
where
  "find_longest_match a b b2j alo ahi blo bhi =
     extend_right a b ahi bhi
       (extend_left a b alo blo
          (flm_outer a b2j [alo..<ahi] blo bhi (Map.empty, alo, blo, 0)))"

text \<open>
  A match of positive size lies inside the window of \<open>a\<close> it was searched in. The loop
  of \<open>get_matching_blocks\<close> terminates by this.
\<close>

lemma flm_inner_bounds:
  assumes "flm_inner js i blo bhi j2len (nj, besti, bestj, bestsize) = (nj', bi', bj', bs')"
    and "alo \<le> i" and "i < ahi"
    and "\<And>j v. j2len j = Some v \<Longrightarrow> v \<le> i - alo"
    and "alo \<le> besti" and "besti + bestsize \<le> ahi"
    and "\<And>j v. nj j = Some v \<Longrightarrow> v \<le> i + 1 - alo"
  shows "alo \<le> bi' \<and> bi' + bs' \<le> ahi \<and> (\<forall>j v. nj' j = Some v \<longrightarrow> v \<le> i + 1 - alo)"
  using assms
proof (induction js arbitrary: nj besti bestj bestsize)
  case Nil
  then show ?case by auto
next
  case (Cons j js)
  define k where "k = (if j = 0 then 0 else (case j2len (j - 1) of None \<Rightarrow> 0 | Some v \<Rightarrow> v)) + 1"
  have k_le: "k \<le> i + 1 - alo"
    using Cons.prems(4)[of "j - 1"] Cons.prems(2) by (auto simp: k_def split: option.splits)
  have k_pos: "0 < k" by (simp add: k_def)
  have nj_upd: "\<And>j' v. (nj(j \<mapsto> k)) j' = Some v \<Longrightarrow> v \<le> i + 1 - alo"
    using k_le Cons.prems(7) by (auto split: if_splits)
  show ?case
  proof (cases "j < blo")
    case True
    then show ?thesis using Cons.IH[of nj besti bestj bestsize] Cons.prems by simp
  next
    case False
    note nlt = this
    show ?thesis
    proof (cases "j \<ge> bhi")
      case True
      then show ?thesis using nlt Cons.prems by auto
    next
      case False
      show ?thesis
      proof (cases "k > bestsize")
        case True
        have "flm_inner js i blo bhi j2len (nj(j \<mapsto> k), i + 1 - k, j + 1 - k, k) = (nj', bi', bj', bs')"
          using Cons.prems(1) nlt False True by (simp add: k_def Let_def)
        moreover have "alo \<le> i + 1 - k" using k_le Cons.prems(2) by arith
        moreover have "i + 1 - k + k \<le> ahi" using k_le Cons.prems(2,3) by arith
        ultimately show ?thesis
          using Cons.IH[of "nj(j \<mapsto> k)" "i + 1 - k" "j + 1 - k" k] Cons.prems(2,3,4) nj_upd
          by blast
      next
        case nbig: False
        have "flm_inner js i blo bhi j2len (nj(j \<mapsto> k), besti, bestj, bestsize) = (nj', bi', bj', bs')"
          using Cons.prems(1) nlt False nbig by (simp add: k_def Let_def)
        then show ?thesis
          using Cons.IH[of "nj(j \<mapsto> k)" besti bestj bestsize] Cons.prems(2,3,4,5,6) nj_upd
          by blast
      qed
    qed
  qed
qed

lemma flm_outer_bounds:
  assumes "flm_outer a b2j [lo..<ahi] blo bhi (j2len, besti, bestj, bestsize) = (bi', bj', bs')"
    and "alo \<le> lo"
    and "\<And>j v. j2len j = Some v \<Longrightarrow> v \<le> lo - alo"
    and "alo \<le> besti" and "besti + bestsize \<le> ahi"
  shows "alo \<le> bi' \<and> bi' + bs' \<le> ahi"
  using assms
proof (induction "ahi - lo" arbitrary: lo j2len besti bestj bestsize)
  case 0
  then show ?case by simp
next
  case (Suc d)
  then have lt: "lo < ahi" by arith
  obtain nj ci cj cs where inner:
    "flm_inner (case b2j (a ! lo) of None \<Rightarrow> [] | Some js \<Rightarrow> js) lo blo bhi j2len
       (Map.empty, besti, bestj, bestsize) = (nj, ci, cj, cs)"
    by (metis prod_cases4)
  have step: "alo \<le> ci \<and> ci + cs \<le> ahi \<and> (\<forall>j v. nj j = Some v \<longrightarrow> v \<le> lo + 1 - alo)"
    by (rule flm_inner_bounds[OF inner Suc.prems(2) lt Suc.prems(3) Suc.prems(4) Suc.prems(5)]) simp_all
  have "flm_outer a b2j [Suc lo..<ahi] blo bhi (nj, ci, cj, cs) = (bi', bj', bs')"
    using Suc.prems(1) lt inner by (simp add: upt_conv_Cons)
  moreover have "d = ahi - Suc lo" using Suc.hyps(2) by arith
  ultimately show ?case
    using Suc.hyps(1)[of "Suc lo" nj ci cj cs] step Suc.prems(2) by auto
qed

lemma extend_left_bounds:
  "extend_left a b alo blo (besti, bestj, bestsize) = (i, j, k) \<Longrightarrow>
   alo \<le> besti \<Longrightarrow> alo \<le> i \<and> i + k = besti + bestsize \<and> bestsize \<le> k"
proof (induction a b alo blo "(besti, bestj, bestsize)" arbitrary: besti bestj bestsize
    rule: extend_left.induct)
  case (1 a b alo blo besti bestj bestsize)
  show ?case
  proof (cases "besti > alo \<and> bestj > blo \<and> a ! (besti - 1) = b ! (bestj - 1)")
    case True
    then have "extend_left a b alo blo (besti - 1, bestj - 1, bestsize + 1) = (i, j, k)"
      using "1.prems"(1) by (simp add: extend_left.simps[of a b alo blo besti])
    then show ?thesis using "1.hyps"[OF True] True by fastforce
  next
    case False
    then show ?thesis using "1.prems"
      by (auto simp: extend_left.simps[of a b alo blo besti] split: if_splits)
  qed
qed

lemma extend_right_bounds:
  "extend_right a b ahi bhi (besti, bestj, bestsize) = (i, j, k) \<Longrightarrow>
   besti + bestsize \<le> ahi \<Longrightarrow> i = besti \<and> i + k \<le> ahi \<and> bestsize \<le> k"
proof (induction a b ahi bhi "(besti, bestj, bestsize)" arbitrary: besti bestj bestsize
    rule: extend_right.induct)
  case (1 a b ahi bhi besti bestj bestsize)
  show ?case
  proof (cases "besti + bestsize < ahi \<and> bestj + bestsize < bhi \<and>
         a ! (besti + bestsize) = b ! (bestj + bestsize)")
    case True
    then have "extend_right a b ahi bhi (besti, bestj, bestsize + 1) = (i, j, k)"
      using "1.prems"(1) by (simp add: extend_right.simps[of a b ahi bhi besti])
    then show ?thesis using "1.hyps"[OF True] True by fastforce
  next
    case False
    then show ?thesis using "1.prems"
      by (auto simp: extend_right.simps[of a b ahi bhi besti] split: if_splits)
  qed
qed

lemma find_longest_match_bounds:
  assumes "find_longest_match a b b2j alo ahi blo bhi = (i, j, k)" and "0 < k"
  shows "alo \<le> i \<and> i + k \<le> ahi"
proof (cases "alo \<le> ahi")
  case True
  obtain i0 j0 k0 where o: "flm_outer a b2j [alo..<ahi] blo bhi (Map.empty, alo, blo, 0) = (i0, j0, k0)"
    by (metis prod_cases3)
  obtain i1 j1 k1 where l: "extend_left a b alo blo (i0, j0, k0) = (i1, j1, k1)"
    by (metis prod_cases3)
  have r: "extend_right a b ahi bhi (i1, j1, k1) = (i, j, k)"
    using assms(1) o l by (simp add: find_longest_match_def)
  have b0: "alo \<le> i0 \<and> i0 + k0 \<le> ahi"
    by (rule flm_outer_bounds[OF o]) (use True in simp_all)
  have b1: "alo \<le> i1 \<and> i1 + k1 = i0 + k0 \<and> k0 \<le> k1"
    using extend_left_bounds[OF l] b0 by simp
  show ?thesis using extend_right_bounds[OF r] b0 b1 by simp
next
  case False
  then have "find_longest_match a b b2j alo ahi blo bhi = (alo, blo, 0)"
    by (simp add: find_longest_match_def extend_left.simps[of a b alo blo alo]
        extend_right.simps[of a b ahi bhi alo])
  then show ?thesis using assms by simp
qed

text \<open>
  \<open>get_matching_blocks\<close>. The queue is a Python list used as a stack: \<open>pop()\<close> takes
  its last element, which is the head of the list here, and \<open>append\<close> puts one in front.
\<close>

type_synonym window = "nat \<times> nat \<times> nat \<times> nat"

definition queue_size :: "window list \<Rightarrow> nat" where
  "queue_size queue = (\<Sum>(alo, ahi, blo, bhi) \<leftarrow> queue. 2 * (ahi - alo) + 1)"

lemma queue_size_decreases:
  assumes "find_longest_match a b b2j alo ahi blo bhi = (i, j, k)" and "k \<noteq> 0"
  shows "queue_size
           ((if i + k < ahi \<and> j + k < bhi then [(i + k, ahi, j + k, bhi)] else []) @
            (if alo < i \<and> blo < j then [(alo, i, blo, j)] else []) @ queue)
         < queue_size ((alo, ahi, blo, bhi) # queue)"
proof -
  have "alo \<le> i \<and> i + k \<le> ahi" and "0 < k"
    using find_longest_match_bounds[OF assms(1)] assms(2) by simp_all
  then show ?thesis by (auto simp: queue_size_def)
qed

function mb_loop ::
  "'a list \<Rightarrow> 'a list \<Rightarrow> ('a \<rightharpoonup> nat list) \<Rightarrow> window list \<Rightarrow> match list \<Rightarrow> match list"
where
  "mb_loop a b b2j [] matching_blocks = matching_blocks"
| "mb_loop a b b2j ((alo, ahi, blo, bhi) # queue) matching_blocks =
     (case find_longest_match a b b2j alo ahi blo bhi of
        (i, j, k) \<Rightarrow>
          if k \<noteq> 0 then
            mb_loop a b b2j
              ((if i + k < ahi \<and> j + k < bhi then [(i + k, ahi, j + k, bhi)] else []) @
               (if alo < i \<and> blo < j then [(alo, i, blo, j)] else []) @ queue)
              (matching_blocks @ [(i, j, k)])
          else mb_loop a b b2j queue matching_blocks)"
  by pat_completeness auto
termination
proof (relation "measure (\<lambda>(a, b, b2j, queue, matching_blocks). queue_size queue)")
qed (auto simp: queue_size_decreases[OF sym] simp del: append.simps, simp add: queue_size_def)

declare mb_loop.simps [simp del]

text \<open>
  After the loop the blocks are sorted (tuples compare lexicographically) and adjacent
  blocks are collapsed; the sentinel \<open>(la, lb, 0)\<close> ends the list.
\<close>

fun collapse :: "match list \<Rightarrow> match \<Rightarrow> match list \<Rightarrow> match list" where
  "collapse [] (i1, j1, k1) non_adjacent =
     (if k1 \<noteq> 0 then non_adjacent @ [(i1, j1, k1)] else non_adjacent)"
| "collapse ((i2, j2, k2) # blocks) (i1, j1, k1) non_adjacent =
     (if i1 + k1 = i2 \<and> j1 + k1 = j2 then collapse blocks (i1, j1, k1 + k2) non_adjacent
      else collapse blocks (i2, j2, k2)
             (if k1 \<noteq> 0 then non_adjacent @ [(i1, j1, k1)] else non_adjacent))"

definition get_matching_blocks :: "'a list \<Rightarrow> 'a list \<Rightarrow> match list" where
  "get_matching_blocks a b =
     (let la = length a; lb = length b;
          matching_blocks = mb_loop a b (chain_b b) [(0, la, 0, lb)] []
      in collapse (sort matching_blocks) (0, 0, 0) [] @ [(la, lb, 0)])"

text \<open>\<open>get_opcodes\<close>: the edit script, as \<open>(tag, i1, i2, j1, j2)\<close>.\<close>

datatype tag = Replace | Delete | Insert | Equal

type_synonym opcode = "tag \<times> nat \<times> nat \<times> nat \<times> nat"

fun opcodes_loop :: "match list \<Rightarrow> nat \<Rightarrow> nat \<Rightarrow> opcode list" where
  "opcodes_loop [] i j = []"
| "opcodes_loop ((ai, bj, sz) # blocks) i j =
     (if i < ai \<and> j < bj then [(Replace, i, ai, j, bj)]
      else if i < ai then [(Delete, i, ai, j, bj)]
      else if j < bj then [(Insert, i, ai, j, bj)]
      else []) @
     (if sz \<noteq> 0 then [(Equal, ai, ai + sz, bj, bj + sz)] else []) @
     opcodes_loop blocks (ai + sz) (bj + sz)"

definition get_opcodes :: "'a list \<Rightarrow> 'a list \<Rightarrow> opcode list" where
  "get_opcodes a b = opcodes_loop (get_matching_blocks a b) 0 0"

text \<open>
  \<open>get_grouped_opcodes(n)\<close>: the leading and the trailing equal range are cut to \<open>n\<close>
  lines, and an equal range longer than \<open>2n\<close> ends a group and starts the next one. A
  last group that is a single equal range is not yielded.
\<close>

definition fix_first :: "nat \<Rightarrow> opcode list \<Rightarrow> opcode list" where
  "fix_first n codes =
     (case codes of
        (Equal, i1, i2, j1, j2) # rest \<Rightarrow> (Equal, max i1 (i2 - n), i2, max j1 (j2 - n), j2) # rest
      | _ \<Rightarrow> codes)"

definition fix_last :: "nat \<Rightarrow> opcode list \<Rightarrow> opcode list" where
  "fix_last n codes =
     (case last codes of
        (Equal, i1, i2, j1, j2) \<Rightarrow>
          butlast codes @ [(Equal, i1, min i2 (i1 + n), j1, min j2 (j1 + n))]
      | _ \<Rightarrow> codes)"

fun group_loop :: "nat \<Rightarrow> opcode list \<Rightarrow> opcode list \<Rightarrow> opcode list list" where
  "group_loop n [] grp =
     (if grp \<noteq> [] \<and> \<not> (length grp = 1 \<and> fst (hd grp) = Equal) then [grp] else [])"
| "group_loop n ((tag, i1, i2, j1, j2) # codes) grp =
     (if tag = Equal \<and> i2 - i1 > n + n then
        (grp @ [(tag, i1, min i2 (i1 + n), j1, min j2 (j1 + n))]) #
        group_loop n codes [(tag, max i1 (i2 - n), i2, max j1 (j2 - n), j2)]
      else group_loop n codes (grp @ [(tag, i1, i2, j1, j2)]))"

definition get_grouped_opcodes :: "'a list \<Rightarrow> 'a list \<Rightarrow> nat \<Rightarrow> opcode list list" where
  "get_grouped_opcodes a b n =
     (let codes = get_opcodes a b;
          codes = (if codes = [] then [(Equal, 0, 1, 0, 1)] else codes)
      in group_loop n (fix_last n (fix_first n codes)) [])"

text \<open>
  \<open>unified_diff(a, b, fromfile, tofile, lineterm=lineterm)\<close> with no file dates and
  \<open>n = 3\<close>: the two header lines before the first hunk, then for every group its
  \<open>@@\<close> line and its lines, each prefixed by a space, \<open>-\<close> or \<open>+\<close>. Only the header
  and the \<open>@@\<close> lines end in \<open>lineterm\<close>; the others end as the input line does.
\<close>

definition format_range_unified :: "nat \<Rightarrow> nat \<Rightarrow> pystr" where
  "format_range_unified start stop =
     (let beginning = start + 1; len = stop - start in
      if len = 1 then str_nat beginning
      else str_nat (if len = 0 then beginning - 1 else beginning) @ ustr '','' @
           str_nat len)"

fun opcode_lines :: "pystr list \<Rightarrow> pystr list \<Rightarrow> opcode \<Rightarrow> pystr list" where
  "opcode_lines a b (tag, i1, i2, j1, j2) =
     (if tag = Equal then map (\<lambda>line. ustr '' '' @ line) (slice a i1 i2)
      else
        (if tag = Replace \<or> tag = Delete then map (\<lambda>line. ustr ''-'' @ line) (slice a i1 i2)
         else []) @
        (if tag = Replace \<or> tag = Insert then map (\<lambda>line. ustr ''+'' @ line) (slice b j1 j2)
         else []))"

definition hunk :: "pystr list \<Rightarrow> pystr list \<Rightarrow> pystr \<Rightarrow> opcode list \<Rightarrow> pystr list" where
  "hunk a b lineterm grp =
     (case (hd grp, last grp) of
        ((t1, f1, f2, f3, f4), (t2, l1, l2, l3, l4)) \<Rightarrow>
          (ustr ''@@ -'' @ format_range_unified f1 l2 @ ustr '' +'' @
           format_range_unified f3 l4 @ ustr '' @@'' @ lineterm) #
          concat (map (opcode_lines a b) grp))"

definition unified_diff :: "pystr list \<Rightarrow> pystr list \<Rightarrow> pystr \<Rightarrow> pystr \<Rightarrow> pystr \<Rightarrow> pystr list" where
  "unified_diff a b fromfile tofile lineterm =
     (case get_grouped_opcodes a b 3 of
        [] \<Rightarrow> []
      | groups \<Rightarrow>
          (ustr ''--- '' @ fromfile @ lineterm) # (ustr ''+++ '' @ tofile @ lineterm) #
          concat (map (hunk a b lineterm) groups))"

section \<open>The change detector\<close>

text \<open>
  \<open>detect_changes(old_content, new_content)\<close> returns the pair of a status string and a
  diff text. \<open>not old_content\<close> holds of the empty string only.
\<close>

definition first_run_status :: pystr where
  "first_run_status = ustr ''First run - no previous content to compare''"

definition no_changes_status :: pystr where
  "no_changes_status = ustr ''No changes detected''"

definition changes_status :: pystr where
  "changes_status = ustr ''Changes detected''"

definition detect_changes :: "pystr \<Rightarrow> pystr \<Rightarrow> pystr \<times> pystr" where
  "detect_changes old_content new_content =
     (if old_content = [] then (first_run_status, new_content)
      else if strip old_content = strip new_content then (no_changes_status, [])
      else
        (let diff = unified_diff (splitlines old_content) (splitlines new_content)
                      (ustr ''Previous Week'') (ustr ''Current Week'') []
         in (changes_status, concat diff)))"

section \<open>Applying a unified diff\<close>

text \<open>
  The repository has no code that applies a diff. This section follows the spec's
  words, "applying \<open>diff\<close> to A (using standard unified-diff patch semantics) reproduces
  B exactly", and gives them the format as the \<open>patch\<close> tool reads it. The diff is cut
  into lines at line feeds. Its first line starts with \<open>---\<close> and a space, its second
  with \<open>+++\<close> and a space. Then come the hunks: a line \<open>@@ -l,s +l,s @@\<close> (a missing
  \<open>,s\<close> is 1), followed by the \<open>s\<close> lines of the old text (prefixed by a space or
  \<open>-\<close>) interleaved with the \<open>s\<close> lines of the new text (prefixed by a space or
  \<open>+\<close>). A hunk applies at the line its header names, and its old lines must be the
  lines of A there.
\<close>

fun lf_lines_from :: "pystr \<Rightarrow> pystr \<Rightarrow> pystr list" where
  "lf_lines_from line [] = (if line = [] then [] else [line])"
| "lf_lines_from line (c # cs) =
     (if c = 10 then (line @ [c]) # lf_lines_from [] cs else lf_lines_from (line @ [c]) cs)"

definition lf_lines :: "pystr \<Rightarrow> pystr list" where
  "lf_lines s = lf_lines_from [] s"

definition is_digit :: "nat \<Rightarrow> bool" where
  "is_digit c = (48 \<le> c \<and> c \<le> 57)"

definition digits_value :: "pystr \<Rightarrow> nat" where
  "digits_value ds = foldl (\<lambda>v c. 10 * v + (c - 48)) 0 ds"

text \<open>A decimal number at the start of a text, with the rest of the text.\<close>

definition parse_nat :: "pystr \<Rightarrow> (nat \<times> pystr) option" where
  "parse_nat s =
     (case takeWhile is_digit s of
        [] \<Rightarrow> None
      | ds \<Rightarrow> Some (digits_value ds, dropWhile is_digit s))"

text \<open>A range \<open>l\<close> or \<open>l,s\<close>.\<close>

definition parse_range :: "pystr \<Rightarrow> ((nat \<times> nat) \<times> pystr) option" where
  "parse_range s =
     (case parse_nat s of
        None \<Rightarrow> None
      | Some (l, rest) \<Rightarrow>
          (case rest of
             c # rest' \<Rightarrow>
               if c = 44 then
                 (case parse_nat rest' of
                    None \<Rightarrow> None
                  | Some (n, rest'') \<Rightarrow> Some ((l, n), rest''))
               else Some ((l, 1), rest)
           | [] \<Rightarrow> Some ((l, 1), rest)))"

definition parse_hunk_header :: "pystr \<Rightarrow> ((nat \<times> nat) \<times> (nat \<times> nat)) option" where
  "parse_hunk_header d =
     (if take 4 d = ustr ''@@ -'' then
        (case parse_range (drop 4 d) of
           None \<Rightarrow> None
         | Some (old_range, rest) \<Rightarrow>
             if take 2 rest = ustr '' +'' then
               (case parse_range (drop 2 rest) of
                  None \<Rightarrow> None
                | Some (new_range, rest') \<Rightarrow>
                    if take 3 rest' = ustr '' @@'' then Some (old_range, new_range) else None)
             else None)
      else None)"

text \<open>
  The lines of the diff after the two header lines, against the lines of the old text
  not yet consumed. \<open>(ol, nl)\<close> are the old and new lines the current hunk still owes,
  \<open>pos\<close> is the number of old lines consumed, \<open>out\<close> the new text so far.
\<close>

fun patch_lines ::
  "pystr list \<Rightarrow> nat \<times> nat \<Rightarrow> pystr list \<Rightarrow> nat \<Rightarrow> pystr list \<Rightarrow> pystr list option"
where
  "patch_lines [] (ol, nl) src pos out = (if ol = 0 \<and> nl = 0 then Some (out @ src) else None)"
| "patch_lines (d # ds) (ol, nl) src pos out =
     (if ol = 0 \<and> nl = 0 then
        (case parse_hunk_header d of
           None \<Rightarrow> None
         | Some ((l, s), (l', s')) \<Rightarrow>
             (let start = (if s = 0 then l else l - 1) in
              if (l = 0 \<and> s \<noteq> 0) \<or> start < pos \<or> length src < start - pos then None
              else patch_lines ds (s, s') (drop (start - pos) src) start
                     (out @ take (start - pos) src)))
      else
        (case d of
           [] \<Rightarrow> None
         | c # line \<Rightarrow>
             if c = 32 then
               (case src of
                  [] \<Rightarrow> None
                | x # xs \<Rightarrow>
                    if x = line \<and> 0 < ol \<and> 0 < nl
                    then patch_lines ds (ol - 1, nl - 1) xs (pos + 1) (out @ [line])
                    else None)
             else if c = 45 then
               (case src of
                  [] \<Rightarrow> None
                | x # xs \<Rightarrow>
                    if x = line \<and> 0 < ol then patch_lines ds (ol - 1, nl) xs (pos + 1) out
                    else None)
             else if c = 43 then
               (if 0 < nl then patch_lines ds (ol, nl - 1) src pos (out @ [line]) else None)
             else None))"

definition apply_unified_diff :: "pystr \<Rightarrow> pystr \<Rightarrow> pystr option" where
  "apply_unified_diff diff A =
     (case lf_lines diff of
        from_line # to_line # hunks \<Rightarrow>
          if take 4 from_line = ustr ''--- '' \<and> take 4 to_line = ustr ''+++ '' \<and> hunks \<noteq> []
          then map_option concat (patch_lines hunks (0, 0) (lf_lines A) 0 [])
          else None
      | _ \<Rightarrow> None)"

section \<open>Exceptions, the outside world and the effects\<close>

text \<open>
  An exception is a value. \<open>KeyError\<close> is what \<open>os.environ[key]\<close> raises for a missing
  key, \<open>IndexError\<close> what \<open>message.content[0]\<close> raises on an empty list, \<open>Exception\<close>
  the one \<open>download_and_extract_pdf\<close> raises itself, and \<open>LibraryError\<close> any other
  exception of a library call, with its message. All of them are caught by
  \<open>except Exception\<close>. \<open>str_exn\<close> is \<open>str(e)\<close>; for a \<open>KeyError\<close> that is the key in
  quotes (the keys of the program are plain names).
\<close>

datatype exn = KeyError pystr | IndexError | Exception pystr | LibraryError pystr

fun str_exn :: "exn \<Rightarrow> pystr" where
  "str_exn (KeyError key) = [39] @ key @ [39]"
| "str_exn IndexError = ustr ''list index out of range''"
| "str_exn (Exception msg) = msg"
| "str_exn (LibraryError msg) = msg"

text \<open>
  What the program reads from outside: the environment variables, the date
  (\<open>datetime.now().strftime('%Y-%m-%d')\<close>), the outcome of fetching and opening the PDF
  at a URL (an exception of \<open>requests.get\<close>, \<open>raise_for_status\<close>, \<open>pdfplumber.open\<close> or
  \<open>extract_text\<close>, or else what \<open>extract_text\<close> returns for each page, \<open>None\<close>
  included), the outcome of \<open>client.messages.create\<close> for an API key and a prompt (an
  exception, or the texts of the content blocks of the message), the outcome of the
  SMTP session for sender, password, recipient, subject and body (an exception or none),
  and the outcome of writing a content to the snapshot file.

  Writing is \<open>open('previous_content.txt', 'w')\<close> and then \<open>f.write(content)\<close>. It
  succeeds, or \<open>open\<close> raises and the file is as it was, or the write raises after
  \<open>open\<close> has truncated the file, which then holds what reached it before the
  exception: the empty text when nothing did.
\<close>

datatype write_outcome = Written | OpenFails exn | WriteFails exn pystr

record world =
  environ :: "pystr \<rightharpoonup> pystr"
  today :: pystr
  http_pdf :: "pystr \<Rightarrow> exn + pystr option list"
  messages_create :: "pystr \<Rightarrow> pystr \<Rightarrow> exn + pystr list"
  smtp :: "pystr \<Rightarrow> pystr \<Rightarrow> pystr \<Rightarrow> pystr \<Rightarrow> pystr \<Rightarrow> exn option"
  file_write :: "pystr \<Rightarrow> write_outcome"

text \<open>
  The file \<open>previous_content.txt\<close>: absent, present with the text that reading it
  returns, or failing to be read with an exception other than \<open>FileNotFoundError\<close>.
\<close>

datatype snapshot_file = Absent | Present pystr | Unreadable exn

text \<open>
  The effects of a run, in order: the summarizer called with a diff text, the request
  sent to the text-generation service with its prompt, \<open>send_email\<close> called with a
  subject and a body, and \<open>save_current_content\<close> called with a content. Output printed
  to the console is not modelled.
\<close>

datatype event = Summarize pystr | ApiCall pystr | SendEmail pystr pystr | SaveContent pystr

record state =
  snapshot :: snapshot_file
  log :: "event list"

definition emit :: "event \<Rightarrow> state \<Rightarrow> state" where
  "emit ev s = s\<lparr>log := log s @ [ev]\<rparr>"

section \<open>The components\<close>

text \<open>The loop over \<open>pdf.pages\<close>; the second argument is \<open>text_content\<close>.\<close>

fun extract_pages :: "pystr option list \<Rightarrow> pystr \<Rightarrow> pystr" where
  "extract_pages [] text_content = text_content"
| "extract_pages (None # pages) text_content = extract_pages pages text_content"
| "extract_pages (Some page_text # pages) text_content =
     (if page_text \<noteq> [] then extract_pages pages (text_content @ page_text @ [10])
      else extract_pages pages text_content)"

definition download_and_extract_pdf :: "world \<Rightarrow> pystr \<Rightarrow> exn + pystr" where
  "download_and_extract_pdf w url =
     (case http_pdf w url of
        Inl e \<Rightarrow> Inl (Exception (ustr ''Failed to download/extract PDF: '' @ str_exn e))
      | Inr pages \<Rightarrow> Inr (strip (extract_pages pages [])))"

text \<open>
  \<open>load_previous_content\<close> catches \<open>FileNotFoundError\<close> only; any other exception of the
  read propagates.
\<close>

definition load_previous_content :: "state \<Rightarrow> exn + pystr" where
  "load_previous_content s =
     (case snapshot s of
        Absent \<Rightarrow> Inr []
      | Present text \<Rightarrow> Inr text
      | Unreadable e \<Rightarrow> Inl e)"

text \<open>
  \<open>save_current_content\<close> opens the file for writing and writes the content. The source
  has no handler around it: an exception of \<open>open\<close> or of the write propagates to the
  caller, and the file is left as the failure left it.
\<close>

definition save_current_content :: "world \<Rightarrow> pystr \<Rightarrow> state \<Rightarrow> (exn + unit) \<times> state" where
  "save_current_content w content s =
     (let s1 = emit (SaveContent content) s in
      case file_write w content of
        Written \<Rightarrow> (Inr (), s1\<lparr>snapshot := Present content\<rparr>)
      | OpenFails e \<Rightarrow> (Inl e, s1)
      | WriteFails e left \<Rightarrow> (Inl e, s1\<lparr>snapshot := Present left\<rparr>))"

definition no_changes_to_analyze :: pystr where
  "no_changes_to_analyze = ustr ''No changes to analyze.''"

definition prompt_head :: pystr where
  "prompt_head =
     ustr ''Please analyze the changes in this document and provide a clear, concise summary.'' @
     [10] @ ustr ''    '' @ [10] @
     ustr ''Focus on:'' @ [10] @
     ustr ''- What sections changed'' @ [10] @
     ustr ''- Key additions or deletions'' @ [10] @
     ustr ''- Important updates or modifications'' @ [10] @
     ustr ''- Overall significance of changes'' @ [10] @ [10] @
     ustr ''Here are the detected changes:'' @ [10]"

definition prompt_tail :: pystr where
  "prompt_tail =
     ustr ''  # Limit to avoid token limits'' @ [10] @ [10] @
     ustr ''Please provide a professional summary suitable for an email.''"

definition prompt :: "pystr \<Rightarrow> pystr" where
  "prompt diff_text = prompt_head @ take 8000 diff_text @ prompt_tail"

definition fallback :: "exn \<Rightarrow> pystr \<Rightarrow> pystr" where
  "fallback e diff_text =
     ustr ''Error analyzing changes with Claude: '' @ str_exn e @ [10, 10] @
     ustr ''Raw diff:'' @ [10] @ take 2000 diff_text"

text \<open>
  \<open>analyze_changes_with_claude\<close>. The client is built first, from
  \<open>os.environ['CLAUDE_API_KEY']\<close>, before the test for an empty diff. Everything inside
  the \<open>try\<close> that fails, the empty content list included, ends in the fallback string.
\<close>

definition analyze_changes_with_claude ::
  "world \<Rightarrow> pystr \<Rightarrow> pystr \<Rightarrow> state \<Rightarrow> (exn + pystr) \<times> state"
where
  "analyze_changes_with_claude w diff_text new_content s =
     (let s1 = emit (Summarize diff_text) s in
      case environ w (ustr ''CLAUDE_API_KEY'') of
        None \<Rightarrow> (Inl (KeyError (ustr ''CLAUDE_API_KEY'')), s1)
      | Some api_key \<Rightarrow>
          if diff_text = [] then (Inr no_changes_to_analyze, s1)
          else
            (let s2 = emit (ApiCall (prompt diff_text)) s1 in
             case messages_create w api_key (prompt diff_text) of
               Inl e \<Rightarrow> (Inr (fallback e diff_text), s2)
             | Inr [] \<Rightarrow> (Inr (fallback IndexError diff_text), s2)
             | Inr (text # content) \<Rightarrow> (Inr text, s2)))"

text \<open>
  \<open>send_email\<close>. The three settings are read before the \<open>try\<close>; whatever the SMTP
  session raises is caught and printed, so both outcomes return normally.
\<close>

definition send_email :: "world \<Rightarrow> pystr \<Rightarrow> pystr \<Rightarrow> state \<Rightarrow> (exn + unit) \<times> state" where
  "send_email w subject body s =
     (let s1 = emit (SendEmail subject body) s in
      case environ w (ustr ''SENDER_EMAIL'') of
        None \<Rightarrow> (Inl (KeyError (ustr ''SENDER_EMAIL'')), s1)
      | Some sender_email \<Rightarrow>
     (case environ w (ustr ''SENDER_PASSWORD'') of
        None \<Rightarrow> (Inl (KeyError (ustr ''SENDER_PASSWORD'')), s1)
      | Some sender_password \<Rightarrow>
     (case environ w (ustr ''RECIPIENT_EMAIL'') of
        None \<Rightarrow> (Inl (KeyError (ustr ''RECIPIENT_EMAIL'')), s1)
      | Some recipient_email \<Rightarrow>
     (case smtp w sender_email sender_password recipient_email subject body of
        None \<Rightarrow> (Inr (), s1)
      | Some e \<Rightarrow> (Inr (), s1)))))"

text \<open>The three settings \<open>send_email\<close> needs are all present in the environment.\<close>

definition mail_configured :: "world \<Rightarrow> bool" where
  "mail_configured w =
     (environ w (ustr ''SENDER_EMAIL'') \<noteq> None \<and> environ w (ustr ''SENDER_PASSWORD'') \<noteq> None \<and>
      environ w (ustr ''RECIPIENT_EMAIL'') \<noteq> None)"

section \<open>The orchestrator\<close>

definition no_changes_subject :: pystr where
  "no_changes_subject = ustr ''PDF Monitor: No Changes This Week''"

definition changes_subject :: pystr where
  "changes_subject = ustr ''PDF Monitor: Changes Detected''"

definition error_subject :: pystr where
  "error_subject = ustr ''PDF Monitor: Error Occurred''"

definition no_changes_body :: "world \<Rightarrow> pystr \<Rightarrow> pystr" where
  "no_changes_body w pdf_url =
     ustr ''Weekly PDF Monitoring Report - '' @ today w @ [10, 10] @
     ustr ''No changes detected in the monitored PDF since last week.'' @ [10, 10] @
     ustr ''Document URL: '' @ pdf_url @ [10] @
     ustr ''Status: Up to date'' @ [10]"

definition changes_body :: "world \<Rightarrow> pystr \<Rightarrow> pystr \<Rightarrow> pystr" where
  "changes_body w analysis pdf_url =
     ustr ''Weekly PDF Monitoring Report - '' @ today w @ [10, 10] @
     ustr ''Changes have been detected in the monitored PDF!'' @ [10, 10] @
     ustr ''SUMMARY:'' @ [10] @ analysis @ [10, 10] @
     ustr ''Document URL: '' @ pdf_url @ [10] @
     ustr ''Status: Updated'' @ [10, 10] @
     ustr ''---'' @ [10] @
     ustr ''This is an automated report from your PDF monitoring system.'' @ [10]"

definition error_body :: "world \<Rightarrow> exn \<Rightarrow> pystr \<Rightarrow> pystr" where
  "error_body w e pdf_url =
     ustr ''PDF Monitoring Error - '' @ today w @ [10, 10] @
     ustr ''An error occurred while monitoring the PDF:'' @ [10, 10] @
     ustr ''Error: '' @ str_exn e @ [10, 10] @
     ustr ''Document URL: '' @ pdf_url @ [10, 10] @
     ustr ''Please check the GitHub Actions logs for more details.'' @ [10]"

text \<open>
  The body of the \<open>try\<close> of \<open>main\<close> up to the prepared email: download and extract, load
  the previous content, detect the changes, and build subject and body, calling the
  summarizer unless the status is "No changes detected". It returns subject, body and
  \<open>current_content\<close>.
\<close>

definition prepare_email ::
  "world \<Rightarrow> pystr \<Rightarrow> state \<Rightarrow> (exn + pystr \<times> pystr \<times> pystr) \<times> state"
where
  "prepare_email w pdf_url s =
     (case download_and_extract_pdf w pdf_url of
        Inl e \<Rightarrow> (Inl e, s)
      | Inr current_content \<Rightarrow>
     (case load_previous_content s of
        Inl e \<Rightarrow> (Inl e, s)
      | Inr previous_content \<Rightarrow>
     (case detect_changes previous_content current_content of
        (change_status, diff_text) \<Rightarrow>
          if change_status = no_changes_status
          then (Inr (no_changes_subject, no_changes_body w pdf_url, current_content), s)
          else
            (case analyze_changes_with_claude w diff_text current_content s of
               (Inl e, s1) \<Rightarrow> (Inl e, s1)
             | (Inr analysis, s1) \<Rightarrow>
                 (Inr (changes_subject, changes_body w analysis pdf_url, current_content), s1)))))"

text \<open>
  The whole body of the \<open>try\<close>: then send the email, then save the content. All three
  can raise inside the \<open>try\<close>.
\<close>

definition main_try :: "world \<Rightarrow> pystr \<Rightarrow> state \<Rightarrow> (exn + unit) \<times> state" where
  "main_try w pdf_url s =
     (case prepare_email w pdf_url s of
        (Inl e, s1) \<Rightarrow> (Inl e, s1)
      | (Inr (subject, body, current_content), s1) \<Rightarrow>
     (case send_email w subject body s1 of
        (Inl e, s2) \<Rightarrow> (Inl e, s2)
      | (Inr u, s2) \<Rightarrow>
     (case save_current_content w current_content s2 of
        (Inl e, s3) \<Rightarrow> (Inl e, s3)
      | (Inr u', s3) \<Rightarrow> (Inr (), s3))))"

text \<open>
  \<open>main\<close>. \<open>os.environ['PDF_URL']\<close> is read outside the \<open>try\<close>. The handler sends the
  error email and re-raises; an exception of \<open>send_email\<close> inside the handler replaces
  the one being handled.
\<close>

definition main :: "world \<Rightarrow> state \<Rightarrow> (exn + unit) \<times> state" where
  "main w s =
     (case environ w (ustr ''PDF_URL'') of
        None \<Rightarrow> (Inl (KeyError (ustr ''PDF_URL'')), s)
      | Some pdf_url \<Rightarrow>
     (case main_try w pdf_url s of
        (Inr u, s1) \<Rightarrow> (Inr (), s1)
      | (Inl e, s1) \<Rightarrow>
     (case send_email w error_subject (error_body w e pdf_url) s1 of
        (Inl e', s2) \<Rightarrow> (Inl e', s2)
      | (Inr u, s2) \<Rightarrow> (Inl e, s2))))"

text \<open>What a log says: the emails sent, the contents saved, the requests made.\<close>

fun notifications :: "event list \<Rightarrow> (pystr \<times> pystr) list" where
  "notifications [] = []"
| "notifications (SendEmail subject body # evs) = (subject, body) # notifications evs"
| "notifications (ev # evs) = notifications evs"

fun persisted :: "event list \<Rightarrow> pystr list" where
  "persisted [] = []"
| "persisted (SaveContent content # evs) = content # persisted evs"
| "persisted (ev # evs) = persisted evs"

fun api_calls :: "event list \<Rightarrow> pystr list" where
  "api_calls [] = []"
| "api_calls (ApiCall p # evs) = p # api_calls evs"
| "api_calls (ev # evs) = api_calls evs"

fun summarized :: "event list \<Rightarrow> pystr list" where
  "summarized [] = []"
| "summarized (Summarize diff_text # evs) = diff_text # summarized evs"
| "summarized (ev # evs) = summarized evs"

section \<open>Scenarios\<close>

text \<open>
  A configured environment and a world around it, for concrete runs: the PDF fetch and
  the text-generation request answer as given, whatever the URL and the prompt, the
  mail is delivered and the file is written.
\<close>

definition example_environ :: "pystr \<rightharpoonup> pystr" where
  "example_environ =
     [ustr ''PDF_URL'' \<mapsto> ustr ''https://example.org/report.pdf'',
      ustr ''CLAUDE_API_KEY'' \<mapsto> ustr ''key'',
      ustr ''SENDER_EMAIL'' \<mapsto> ustr ''monitor@example.org'',
      ustr ''SENDER_PASSWORD'' \<mapsto> ustr ''secret'',
      ustr ''RECIPIENT_EMAIL'' \<mapsto> ustr ''reader@example.org'']"

definition example_world :: "(exn + pystr option list) \<Rightarrow> (exn + pystr list) \<Rightarrow> world" where
  "example_world pdf reply =
     \<lparr>environ = example_environ, today = ustr ''2024-01-01'',
      http_pdf = (\<lambda>url. pdf), messages_create = (\<lambda>api_key p. reply),
      smtp = (\<lambda>sender password recipient subject body. None),
      file_write = (\<lambda>content. Written)\<rparr>"

text \<open>
  The states and worlds of the concrete runs: no snapshot file and a one-page PDF
  "Hello World"; a fetch that fails; a one-page PDF "Report v1" against a snapshot with
  the same text, once in a world where the file is written and once in a world where
  the write raises after the file was truncated.
\<close>

definition no_snapshot :: state where
  "no_snapshot = \<lparr>snapshot = Absent, log = []\<rparr>"

definition hello_world :: world where
  "hello_world =
     example_world (Inr [Some (ustr ''Hello World'')]) (Inr [ustr ''A first version.''])"

definition fetch_fails_world :: world where
  "fetch_fails_world = example_world (Inl (LibraryError (ustr ''404 Client Error''))) (Inr [])"

definition report_world :: world where
  "report_world = example_world (Inr [Some (ustr ''Report v1'')]) (Inr [])"

definition report_snapshot :: state where
  "report_snapshot = \<lparr>snapshot = Present (ustr ''Report v1''), log = []\<rparr>"

definition write_fails_world :: world where
  "write_fails_world =
     report_world\<lparr>file_write :=
       (\<lambda>content. WriteFails (LibraryError (ustr ''No space left on device'')) [])\<rparr>"

section \<open>Notions for the correctness of the matcher\<close>

text \<open>
  These are not part of the program: they state what the blocks of
  \<open>get_matching_blocks\<close> are. A window is a pair of index ranges, one in \<open>a\<close> and one
  in \<open>b\<close>; one window is before another when both of its ranges end where the ranges
  of the other start, or earlier.
\<close>

text \<open>A match: equal elements, inside the windows.\<close>

definition match_in :: "'a list \<Rightarrow> 'a list \<Rightarrow> window \<Rightarrow> match \<Rightarrow> bool" where
  "match_in a b w m =
     (case (w, m) of
        ((alo, ahi, blo, bhi), (i, j, k)) \<Rightarrow>
          alo \<le> i \<and> i + k \<le> ahi \<and> blo \<le> j \<and> j + k \<le> bhi \<and>
          (\<forall>t<k. a ! (i + t) = b ! (j + t)))"

definition before :: "window \<Rightarrow> window \<Rightarrow> bool" where
  "before w w' =
     (case (w, w') of ((alo, ahi, blo, bhi), (alo', ahi', blo', bhi')) \<Rightarrow> ahi \<le> alo' \<and> bhi \<le> blo')"

definition apart :: "window \<Rightarrow> window \<Rightarrow> bool" where
  "apart w w' = (before w w' \<or> before w' w)"

definition window_of :: "match \<Rightarrow> window" where
  "window_of m = (case m of (i, j, k) \<Rightarrow> (i, i + k, j, j + k))"

definition inside :: "window \<Rightarrow> window \<Rightarrow> bool" where
  "inside w w' =
     (case (w, w') of
        ((alo, ahi, blo, bhi), (alo', ahi', blo', bhi')) \<Rightarrow>
          alo' \<le> alo \<and> ahi \<le> ahi' \<and> blo' \<le> blo \<and> bhi \<le> bhi')"

definition mb_inv :: "'a list \<Rightarrow> 'a list \<Rightarrow> window list \<Rightarrow> match list \<Rightarrow> bool" where
  "mb_inv a b queue acc =
     (sorted_wrt apart (queue @ map window_of acc) \<and>
      (\<forall>w \<in> set queue. inside w (0, length a, 0, length b) \<and>
         (case w of (alo, ahi, blo, bhi) \<Rightarrow> alo \<le> ahi \<and> blo \<le> bhi)) \<and>
      (\<forall>m \<in> set acc. match_in a b (0, length a, 0, length b) m \<and> 0 < snd (snd m)))"

definition block_ok :: "'a list \<Rightarrow> 'a list \<Rightarrow> match \<Rightarrow> bool" where
  "block_ok a b m = (match_in a b (0, length a, 0, length b) m \<and> 0 < snd (snd m))"

definition block_before :: "match \<Rightarrow> match \<Rightarrow> bool" where
  "block_before m m' = before (window_of m) (window_of m')"

text \<open>The blocks kept so far, the current block if it is not the dummy, the blocks to come.\<close>

definition pending :: "match list \<Rightarrow> match \<Rightarrow> match list \<Rightarrow> match list" where
  "pending non_adjacent cur blocks =
     non_adjacent @ (if snd (snd cur) \<noteq> 0 then [cur] else []) @ blocks"

section \<open>Basic facts\<close>

lemma ustr_eq_iff [simp]: "ustr s = ustr t \<longleftrightarrow> s = t"
  unfolding ustr_def by (simp add: inj_map_eq_map inj_on_def)

lemma ustr_Nil [simp]: "ustr [] = []"
  by (simp add: ustr_def)

lemma ustr_Cons: "ustr (c # s) = of_char c # ustr s"
  by (simp add: ustr_def)

lemma statuses_distinct [simp]:
  "first_run_status \<noteq> no_changes_status" "first_run_status \<noteq> changes_status"
  "changes_status \<noteq> no_changes_status"
  by (simp_all add: first_run_status_def no_changes_status_def changes_status_def)

lemma ustr_eq_Nil [simp]: "ustr s = [] \<longleftrightarrow> s = []"
  by (simp add: ustr_def)

lemmas scenario_defs =
  example_world_def example_environ_def no_snapshot_def hello_world_def fetch_fails_world_def
  report_world_def report_snapshot_def write_fails_world_def

lemmas run_defs =
  main_def main_try_def prepare_email_def download_and_extract_pdf_def
  load_previous_content_def save_current_content_def send_email_def
  analyze_changes_with_claude_def emit_def mail_configured_def Let_def

lemma isspace_simps [simp]:
  "isspace 10" "isspace 32" "\<not> isspace 49" "\<not> isspace 72" "\<not> isspace 82" "\<not> isspace 100"
  by (simp_all add: isspace_def)

lemma strip_hello [simp]: "strip (ustr ''Hello World'' @ [10]) = ustr ''Hello World''"
  by (simp add: strip_def ustr_Cons)

lemma strip_report [simp]:
  "strip (ustr ''Report v1'' @ [10]) = ustr ''Report v1''"
  "strip (ustr ''Report v1'') = ustr ''Report v1''"
  by (simp_all add: strip_def ustr_Cons)

lemma dropWhile_id: "xs = [] \<or> \<not> P (hd xs) \<Longrightarrow> dropWhile P xs = xs"
  by (cases xs) auto

lemma strip_strip: "strip (strip s) = strip s"
proof -
  define y where "y = dropWhile isspace s"
  define z where "z = dropWhile isspace (rev y)"
  have z_suffix: "\<exists>p. rev y = p @ z" unfolding z_def
    by (metis takeWhile_dropWhile_id)
  have "rev z = [] \<or> \<not> isspace (hd (rev z))"
  proof (cases "z = []")
    case True
    then show ?thesis by simp
  next
    case False
    from z_suffix obtain p where p: "rev y = p @ z" by blast
    then have "y = rev z @ rev p" by (metis rev_append rev_rev_ident)
    then have "hd (rev z) = hd y" using False by simp
    moreover have "y \<noteq> []" using p False by auto
    then have "\<not> isspace (hd y)" unfolding y_def by (metis hd_dropWhile)
    ultimately show ?thesis by simp
  qed
  then have "dropWhile isspace (rev z) = rev z" by (rule dropWhile_id)
  moreover have "dropWhile isspace z = z" unfolding z_def by (rule dropWhile_idem)
  ultimately show ?thesis by (simp add: strip_def y_def z_def)
qed

lemma notifications_append [simp]:
  "notifications (xs @ ys) = notifications xs @ notifications ys"
  by (induction xs rule: notifications.induct) simp_all

lemma persisted_append [simp]: "persisted (xs @ ys) = persisted xs @ persisted ys"
  by (induction xs rule: persisted.induct) simp_all

lemma api_calls_append [simp]: "api_calls (xs @ ys) = api_calls xs @ api_calls ys"
  by (induction xs rule: api_calls.induct) simp_all

lemma summarized_append [simp]: "summarized (xs @ ys) = summarized xs @ summarized ys"
  by (induction xs rule: summarized.induct) simp_all

lemma subjects_distinct [simp]:
  "no_changes_subject \<noteq> error_subject" "changes_subject \<noteq> error_subject"
  "no_changes_subject \<noteq> changes_subject"
  by (simp_all add: no_changes_subject_def changes_subject_def error_subject_def)

section \<open>The change detector on equal and on empty texts\<close>

text \<open>
  C3. For every current text \<open>A\<close>, when the snapshot file is absent or empty, the
  previous content loads as the empty string, and \<open>detect_changes\<close> then returns the
  first-run status with \<open>A\<close> itself, whole, as the diff payload.
\<close>

theorem first_run_payload:
  "snapshot s = Absent \<or> snapshot s = Present [] \<Longrightarrow>
   load_previous_content s = Inr [] \<and> detect_changes [] A = (first_run_status, A)"
  by (auto simp: load_previous_content_def detect_changes_def)

theorem first_run_payload_witness:
  "load_previous_content \<lparr>snapshot = Absent, log = []\<rparr> = Inr [] \<and>
   detect_changes [] (ustr ''Hello World'') = (first_run_status, ustr ''Hello World'')"
  using first_run_payload [of "\<lparr>snapshot = Absent, log = []\<rparr>" "ustr ''Hello World''"] by simp

text \<open>
  C2, as stated, fails at the empty text: the test for an empty previous content comes
  first, so comparing the empty text against itself is a first run, not "No changes
  detected".
\<close>

theorem self_comparison_of_empty_text_counterexample:
  "detect_changes [] [] \<noteq> (no_changes_status, [])"
  by (simp add: detect_changes_def)

text \<open>
  C2, amended. For every non-empty text \<open>A\<close>, comparing \<open>A\<close> against itself yields "No
  changes detected" with an empty diff.
\<close>

theorem self_comparison_unchanged:
  "A \<noteq> [] \<Longrightarrow> detect_changes A A = (no_changes_status, [])"
  by (simp add: detect_changes_def)

theorem self_comparison_unchanged_witness:
  "ustr ''Report v1'' \<noteq> [] \<and>
   detect_changes (ustr ''Report v1'') (ustr ''Report v1'') = (no_changes_status, [])"
  using self_comparison_unchanged [of "ustr ''Report v1''"] by (simp add: ustr_Cons)

section \<open>What a run does not depend on\<close>

lemma send_email_snapshot_indep:
  "log s = log s' \<Longrightarrow>
   fst (send_email w subject body s) = fst (send_email w subject body s') \<and>
   log (snd (send_email w subject body s)) = log (snd (send_email w subject body s'))"
  by (simp add: send_email_def emit_def Let_def split: option.splits)

lemma analyze_frame:
  "analyze_changes_with_claude w d n s = (r, s') \<Longrightarrow> snapshot s' = snapshot s"
  by (auto simp: analyze_changes_with_claude_def emit_def Let_def
      split: option.splits sum.splits list.splits if_splits)

lemma analyze_snapshot_indep:
  "log s = log s' \<Longrightarrow>
   fst (analyze_changes_with_claude w d n s) = fst (analyze_changes_with_claude w d n s') \<and>
   log (snd (analyze_changes_with_claude w d n s)) =
   log (snd (analyze_changes_with_claude w d n s'))"
  by (simp add: analyze_changes_with_claude_def emit_def Let_def
      split: option.splits sum.splits list.splits)

lemma prepare_email_frame:
  "prepare_email w u s = (r, s') \<Longrightarrow> snapshot s' = snapshot s"
  by (auto simp: prepare_email_def split: sum.splits prod.splits if_splits dest: analyze_frame)

lemma prepare_email_snapshot_indep:
  assumes "load_previous_content s = load_previous_content s'" and "log s = log s'"
  shows "fst (prepare_email w u s) = fst (prepare_email w u s') \<and>
         log (snd (prepare_email w u s)) = log (snd (prepare_email w u s'))"
proof (cases "download_and_extract_pdf w u")
  case (Inl e)
  then show ?thesis using assms by (simp add: prepare_email_def)
next
  case (Inr cur)
  show ?thesis
  proof (cases "load_previous_content s'")
    case (Inl e)
    then show ?thesis using assms Inr by (simp add: prepare_email_def)
  next
    case prev: (Inr prev)
    obtain st d where dc: "detect_changes prev cur = (st, d)" by (cases "detect_changes prev cur")
    show ?thesis
    proof (cases "st = no_changes_status")
      case True
      then show ?thesis using assms Inr prev dc by (simp add: prepare_email_def)
    next
      case False
      obtain r1 t1 where a1: "analyze_changes_with_claude w d cur s = (r1, t1)"
        by (cases "analyze_changes_with_claude w d cur s")
      obtain r2 t2 where a2: "analyze_changes_with_claude w d cur s' = (r2, t2)"
        by (cases "analyze_changes_with_claude w d cur s'")
      have "r1 = r2 \<and> log t1 = log t2"
        using analyze_snapshot_indep[OF assms(2), of w d cur] a1 a2 by simp
      then show ?thesis
        using assms Inr prev dc False a1 a2
        by (auto simp: prepare_email_def split: sum.splits)
    qed
  qed
qed

lemma save_snapshot_indep:
  "log s = log s' \<Longrightarrow>
   fst (save_current_content w c s) = fst (save_current_content w c s') \<and>
   log (snd (save_current_content w c s)) = log (snd (save_current_content w c s'))"
  by (simp add: save_current_content_def emit_def Let_def split: write_outcome.splits)

lemma main_try_snapshot_indep:
  assumes "load_previous_content s = load_previous_content s'" and "log s = log s'"
  shows "fst (main_try w u s) = fst (main_try w u s') \<and>
         log (snd (main_try w u s)) = log (snd (main_try w u s'))"
proof -
  obtain r1 t1 where p1: "prepare_email w u s = (r1, t1)" by (cases "prepare_email w u s")
  obtain r2 t2 where p2: "prepare_email w u s' = (r2, t2)" by (cases "prepare_email w u s'")
  have eq: "r1 = r2" "log t1 = log t2"
    using prepare_email_snapshot_indep[OF assms, of w u] p1 p2 by simp_all
  show ?thesis
  proof (cases r2)
    case (Inl e)
    then show ?thesis using p1 p2 eq by (simp add: main_try_def)
  next
    case (Inr x)
    obtain subject body cur where x: "x = (subject, body, cur)" by (cases x)
    obtain q1 v1 where e1: "send_email w subject body t1 = (q1, v1)"
      by (cases "send_email w subject body t1")
    obtain q2 v2 where e2: "send_email w subject body t2 = (q2, v2)"
      by (cases "send_email w subject body t2")
    have q: "q1 = q2" "log v1 = log v2"
      using send_email_snapshot_indep[OF eq(2), of w subject body] e1 e2 by simp_all
    obtain o1 u1 where w1: "save_current_content w cur v1 = (o1, u1)"
      by (cases "save_current_content w cur v1")
    obtain o2 u2 where w2: "save_current_content w cur v2 = (o2, u2)"
      by (cases "save_current_content w cur v2")
    have "o1 = o2 \<and> log u1 = log u2"
      using save_snapshot_indep[OF q(2), of w cur] w1 w2 by simp
    then show ?thesis
      using p1 p2 eq Inr x e1 e2 q w1 w2
      by (auto simp: main_try_def split: sum.splits)
  qed
qed

lemma main_snapshot_indep:
  assumes "load_previous_content s = load_previous_content s'" and "log s = log s'"
  shows "fst (main w s) = fst (main w s') \<and> log (snd (main w s)) = log (snd (main w s'))"
proof (cases "environ w (ustr ''PDF_URL'')")
  case None
  then show ?thesis using assms by (simp add: main_def)
next
  case (Some u)
  obtain r1 t1 where p1: "main_try w u s = (r1, t1)" by (cases "main_try w u s")
  obtain r2 t2 where p2: "main_try w u s' = (r2, t2)" by (cases "main_try w u s'")
  have eq: "r1 = r2" "log t1 = log t2"
    using main_try_snapshot_indep[OF assms, of w u] p1 p2 by simp_all
  show ?thesis
  proof (cases r2)
    case (Inr x)
    then show ?thesis using Some p1 p2 eq by (simp add: main_def)
  next
    case (Inl e)
    obtain q1 v1 where e1: "send_email w error_subject (error_body w e u) t1 = (q1, v1)"
      by (cases "send_email w error_subject (error_body w e u) t1")
    obtain q2 v2 where e2: "send_email w error_subject (error_body w e u) t2 = (q2, v2)"
      by (cases "send_email w error_subject (error_body w e u) t2")
    have "q1 = q2 \<and> log v1 = log v2"
      using send_email_snapshot_indep[OF eq(2), of w error_subject "error_body w e u"] e1 e2
      by simp
    then show ?thesis
      using Some p1 p2 eq Inl e1 e2 by (auto simp: main_def split: sum.splits)
  qed
qed

text \<open>
  C10. A snapshot file that exists and is empty and an absent snapshot file both load
  as the empty string, and a run from the one and a run from the other end with the
  same result and the same effects, whatever the world. The detector classifies every
  current text against the empty previous content as a first run, and the empty
  current text in particular is not classified "No changes detected".
\<close>

theorem empty_snapshot_is_absent_snapshot:
  "load_previous_content (s\<lparr>snapshot := Present []\<rparr>) = Inr [] \<and>
   load_previous_content (s\<lparr>snapshot := Absent\<rparr>) = Inr [] \<and>
   fst (main w (s\<lparr>snapshot := Present []\<rparr>)) = fst (main w (s\<lparr>snapshot := Absent\<rparr>)) \<and>
   log (snd (main w (s\<lparr>snapshot := Present []\<rparr>))) = log (snd (main w (s\<lparr>snapshot := Absent\<rparr>))) \<and>
   fst (detect_changes [] current) = first_run_status \<and>
   fst (detect_changes [] []) \<noteq> no_changes_status"
proof -
  have l: "load_previous_content (s\<lparr>snapshot := Present []\<rparr>) = Inr []"
    "load_previous_content (s\<lparr>snapshot := Absent\<rparr>) = Inr []"
    by (simp_all add: load_previous_content_def)
  have "fst (main w (s\<lparr>snapshot := Present []\<rparr>)) = fst (main w (s\<lparr>snapshot := Absent\<rparr>)) \<and>
   log (snd (main w (s\<lparr>snapshot := Present []\<rparr>))) = log (snd (main w (s\<lparr>snapshot := Absent\<rparr>)))"
    by (rule main_snapshot_indep) (simp_all add: l)
  then show ?thesis using l by (simp add: detect_changes_def)
qed

theorem empty_snapshot_is_absent_snapshot_witness:
  "fst (main hello_world (no_snapshot\<lparr>snapshot := Present []\<rparr>)) =
     fst (main hello_world (no_snapshot\<lparr>snapshot := Absent\<rparr>)) \<and>
   log (snd (main hello_world (no_snapshot\<lparr>snapshot := Present []\<rparr>))) =
     log (snd (main hello_world (no_snapshot\<lparr>snapshot := Absent\<rparr>))) \<and>
   fst (detect_changes [] []) = first_run_status"
  using empty_snapshot_is_absent_snapshot [of no_snapshot hello_world "[]"] by simp


section \<open>The summarizer\<close>

text \<open>
  C7. With the API key configured, the summarizer called with an empty diff returns
  the fixed message "No changes to analyze." and sends no request to the
  text-generation service: the only effect is the record of the call itself.
\<close>

theorem empty_diff_short_circuits:
  "environ w (ustr ''CLAUDE_API_KEY'') = Some api_key \<Longrightarrow>
   analyze_changes_with_claude w [] new_content s =
     (Inr (ustr ''No changes to analyze.''), emit (Summarize []) s) \<and>
   api_calls (log (snd (analyze_changes_with_claude w [] new_content s))) = api_calls (log s)"
  by (simp add: analyze_changes_with_claude_def no_changes_to_analyze_def emit_def)

theorem empty_diff_short_circuits_witness:
  "analyze_changes_with_claude (example_world (Inr []) (Inr [ustr ''never asked''])) []
     (ustr ''Hello World'') \<lparr>snapshot = Absent, log = []\<rparr> =
     (Inr (ustr ''No changes to analyze.''), \<lparr>snapshot = Absent, log = [Summarize []]\<rparr>) \<and>
   api_calls (log (snd (analyze_changes_with_claude
     (example_world (Inr []) (Inr [ustr ''never asked''])) [] (ustr ''Hello World'')
     \<lparr>snapshot = Absent, log = []\<rparr>))) = []"
  using empty_diff_short_circuits [of "example_world (Inr []) (Inr [ustr ''never asked''])"
      "ustr ''key''" "ustr ''Hello World''" "\<lparr>snapshot = Absent, log = []\<rparr>"]
  by (simp add: example_world_def example_environ_def emit_def)

text \<open>
  C8. With the API key configured and a non-empty diff, when the request fails (the
  call raises, or the message has no content block to read), the summarizer does not
  raise: it returns the fallback string, which holds the error description and then the
  first 2000 characters of the diff.
\<close>

theorem summarizer_failure_falls_back:
  assumes "environ w (ustr ''CLAUDE_API_KEY'') = Some api_key" and "diff_text \<noteq> []"
    and "messages_create w api_key (prompt diff_text) = Inl e \<or>
         (messages_create w api_key (prompt diff_text) = Inr [] \<and> e = IndexError)"
  shows "fst (analyze_changes_with_claude w diff_text new_content s) =
           Inr (ustr ''Error analyzing changes with Claude: '' @ str_exn e @ [10, 10] @
                ustr ''Raw diff:'' @ [10] @ take 2000 diff_text) \<and>
         length (take 2000 diff_text) \<le> 2000"
  using assms by (auto simp: analyze_changes_with_claude_def fallback_def Let_def)

theorem summarizer_failure_falls_back_witness:
  "fst (analyze_changes_with_claude
          (example_world (Inr []) (Inl (LibraryError (ustr ''Connection error.''))))
          (ustr ''-a+b'') (ustr ''b'') \<lparr>snapshot = Absent, log = []\<rparr>) =
     Inr (ustr ''Error analyzing changes with Claude: '' @ ustr ''Connection error.'' @ [10, 10] @
          ustr ''Raw diff:'' @ [10] @ ustr ''-a+b'') \<and>
   length (take 2000 (ustr ''-a+b'')) \<le> 2000"
  using summarizer_failure_falls_back [of
      "example_world (Inr []) (Inl (LibraryError (ustr ''Connection error.'')))"
      "ustr ''key''" "ustr ''-a+b''" "LibraryError (ustr ''Connection error.'')"
      "ustr ''b''" "\<lparr>snapshot = Absent, log = []\<rparr>"]
  by (simp add: example_world_def example_environ_def ustr_Cons)

section \<open>The steps of a run\<close>

lemma send_email_configured:
  "mail_configured w \<Longrightarrow>
   send_email w subject body s = (Inr (), emit (SendEmail subject body) s)"
  by (auto simp: send_email_def mail_configured_def Let_def split: option.splits)

lemma send_email_log:
  "send_email w subject body s = (r, s') \<Longrightarrow>
   s' = emit (SendEmail subject body) s"
  by (auto simp: send_email_def Let_def split: option.splits)

lemma analyze_log:
  "analyze_changes_with_claude w d n s = (r, s') \<Longrightarrow>
   snapshot s' = snapshot s \<and>
   (\<exists>evs. log s' = log s @ evs \<and> notifications evs = [] \<and> persisted evs = [] \<and>
          summarized evs = [d])"
  by (auto simp: analyze_changes_with_claude_def emit_def Let_def
      split: option.splits sum.splits list.splits if_splits)

lemma prepare_email_log:
  "prepare_email w u s = (r, s') \<Longrightarrow>
   snapshot s' = snapshot s \<and>
   (\<exists>evs. log s' = log s @ evs \<and> notifications evs = [] \<and> persisted evs = [])"
  by (auto simp: prepare_email_def split: sum.splits prod.splits if_splits dest!: analyze_log)

lemma prepare_email_subject:
  "prepare_email w u s = (Inr (subject, body, content), s') \<Longrightarrow>
   subject = no_changes_subject \<or> subject = changes_subject"
  by (auto simp: prepare_email_def split: sum.splits prod.splits if_splits)

lemma download_is_stripped:
  "download_and_extract_pdf w u = Inr current_content \<Longrightarrow> strip current_content = current_content"
  by (auto simp: download_and_extract_pdf_def strip_strip split: sum.splits)


lemma analyze_with_key:
  assumes "environ w (ustr ''CLAUDE_API_KEY'') = Some api_key"
  shows "\<exists>analysis. analyze_changes_with_claude w d n s =
     (Inr analysis,
      s\<lparr>log := log s @ Summarize d # (if d = [] then [] else [ApiCall (prompt d)])\<rparr>)"
proof (cases "d = []")
  case True
  then show ?thesis
    using assms by (simp add: analyze_changes_with_claude_def emit_def)
next
  case False
  then show ?thesis
    using assms
    by (cases "messages_create w api_key (prompt d)")
       (simp_all add: analyze_changes_with_claude_def emit_def Let_def split: list.splits)
qed

section \<open>The error path\<close>

text \<open>
  The steps before the notification are those of \<open>prepare_email\<close>. It raises exactly when
  the download or the extraction raises, or the read of the snapshot file does, or the
  summarizer does (detecting cannot raise); a failing fetch is the first of these.
\<close>

lemma prepare_email_failures:
  "prepare_email w pdf_url s = (Inl e, s1) \<longleftrightarrow>
     (download_and_extract_pdf w pdf_url = Inl e \<and> s1 = s) \<or>
     (\<exists>current_content.
        download_and_extract_pdf w pdf_url = Inr current_content \<and>
        ((load_previous_content s = Inl e \<and> s1 = s) \<or>
         (\<exists>previous_content.
            load_previous_content s = Inr previous_content \<and>
            fst (detect_changes previous_content current_content) \<noteq> no_changes_status \<and>
            analyze_changes_with_claude w
              (snd (detect_changes previous_content current_content)) current_content s =
              (Inl e, s1))))"
  by (auto simp: prepare_email_def split: sum.splits prod.splits if_splits)

lemma fetch_failure_is_a_failed_step:
  "http_pdf w pdf_url = Inl e \<Longrightarrow>
   prepare_email w pdf_url s =
     (Inl (Exception (ustr ''Failed to download/extract PDF: '' @ str_exn e)), s)"
  by (simp add: prepare_email_def download_and_extract_pdf_def)

text \<open>
  C4. When a step before the notification fails, that is when the part of the run that
  prepares the email raises \<open>e\<close> (fetching and extracting, loading the previous content,
  summarizing), and the mail settings are configured, then \<open>main\<close> sends exactly one
  email on top of those already in the log, with the subject "PDF Monitor: Error
  Occurred" and a body that contains \<open>str(e)\<close> and the monitored URL, it saves no
  content and leaves the snapshot file as it was, and it raises \<open>e\<close> again.
\<close>

theorem error_path_notifies_once_and_reraises:
  assumes "environ w (ustr ''PDF_URL'') = Some pdf_url"
    and "prepare_email w pdf_url s = (Inl e, s1)"
    and "mail_configured w"
  shows "main w s = (Inl e, emit (SendEmail error_subject (error_body w e pdf_url)) s1) \<and>
         notifications (log (snd (main w s))) =
           notifications (log s) @ [(ustr ''PDF Monitor: Error Occurred'', error_body w e pdf_url)] \<and>
         (\<exists>p q. error_body w e pdf_url = p @ str_exn e @ q) \<and>
         (\<exists>p q. error_body w e pdf_url = p @ pdf_url @ q) \<and>
         persisted (log (snd (main w s))) = persisted (log s) \<and>
         snapshot (snd (main w s)) = snapshot s"
proof -
  have m: "main w s = (Inl e, emit (SendEmail error_subject (error_body w e pdf_url)) s1)"
    using assms by (simp add: main_def main_try_def send_email_configured)
  obtain evs where evs: "log s1 = log s @ evs" "notifications evs = []" "persisted evs = []"
    and snap: "snapshot s1 = snapshot s"
    using prepare_email_log[OF assms(2)] by auto
  have b1: "\<exists>p q. error_body w e pdf_url = p @ str_exn e @ q"
    unfolding error_body_def by (metis append.assoc)
  have b2: "\<exists>p q. error_body w e pdf_url = p @ pdf_url @ q"
    unfolding error_body_def by (metis append.assoc)
  show ?thesis
    using m evs snap b1 b2 by (simp add: emit_def error_subject_def)
qed

theorem error_path_notifies_once_and_reraises_witness:
  "main fetch_fails_world report_snapshot =
     (Inl (Exception (ustr ''Failed to download/extract PDF: 404 Client Error'')),
      \<lparr>snapshot = Present (ustr ''Report v1''),
       log = [SendEmail (ustr ''PDF Monitor: Error Occurred'')
                (error_body fetch_fails_world
                   (Exception (ustr ''Failed to download/extract PDF: 404 Client Error''))
                   (ustr ''https://example.org/report.pdf''))]\<rparr>)"
  using error_path_notifies_once_and_reraises [of fetch_fails_world
      "ustr ''https://example.org/report.pdf''" report_snapshot
      "Exception (ustr ''Failed to download/extract PDF: 404 Client Error'')" report_snapshot]
  by (simp add: scenario_defs run_defs error_subject_def ustr_def)

text \<open>
  The write of the snapshot file: what it appends to the log and what it leaves in the
  file, by its outcome.
\<close>

lemma save_outcome:
  "save_current_content w c s = (r, s') \<Longrightarrow>
   log s' = log s @ [SaveContent c] \<and>
   (case file_write w c of
      Written \<Rightarrow> r = Inr () \<and> snapshot s' = Present c
    | OpenFails e \<Rightarrow> r = Inl e \<and> snapshot s' = snapshot s
    | WriteFails e left \<Rightarrow> r = Inl e \<and> snapshot s' = Present left)"
  by (auto simp: save_current_content_def emit_def Let_def split: write_outcome.splits)

lemma prepare_email_content:
  "prepare_email w u s = (Inr (subject, body, content), s') \<Longrightarrow>
   download_and_extract_pdf w u = Inr content"
  by (auto simp: prepare_email_def split: sum.splits prod.splits if_splits)

text \<open>
  C5, as stated, fails when the write itself raises. In a run over an unchanged
  "Report v1" where the write raises after the file was truncated, the save is called
  after the success email, \<open>main\<close> then sends the error email and raises, and the
  snapshot file no longer holds "Report v1": a failed run with a changed snapshot.
\<close>

theorem persisting_failed_run_counterexample:
  "fst (main write_fails_world report_snapshot) =
     Inl (LibraryError (ustr ''No space left on device'')) \<and>
   log (snd (main write_fails_world report_snapshot)) =
     [SendEmail (ustr ''PDF Monitor: No Changes This Week'')
        (no_changes_body write_fails_world (ustr ''https://example.org/report.pdf'')),
      SaveContent (ustr ''Report v1''),
      SendEmail (ustr ''PDF Monitor: Error Occurred'')
        (error_body write_fails_world (LibraryError (ustr ''No space left on device''))
           (ustr ''https://example.org/report.pdf''))] \<and>
   snapshot report_snapshot = Present (ustr ''Report v1'') \<and>
   snapshot (snd (main write_fails_world report_snapshot)) = Present []"
  by (simp add: scenario_defs run_defs detect_changes_def no_changes_subject_def
      error_subject_def no_changes_status_def no_changes_body_def error_body_def)

text \<open>
  C5, amended. In every run: if \<open>main\<close> returns, the run ended with one email, under
  one of the two success subjects, followed at once by the one save of the run, the
  write succeeded, and nothing was sent or saved before them. If \<open>main\<close> raises, then
  either no content was saved and the snapshot file is as it was, or the save was
  called once, right after the success email and before the error email, and it was the
  write itself that raised: the file is as it was when \<open>open\<close> raised, and holds what
  the failed write left when the write raised. The save is never called after the
  error email.
\<close>

theorem persisting_only_after_notifying:
  "case main w s of
     (Inr u, s') \<Rightarrow>
       (\<exists>evs subject body content.
          log s' = log s @ evs @ [SendEmail subject body, SaveContent content] \<and>
          notifications evs = [] \<and> persisted evs = [] \<and>
          (subject = no_changes_subject \<or> subject = changes_subject) \<and>
          file_write w content = Written \<and> snapshot s' = Present content)
   | (Inl e, s') \<Rightarrow>
       (persisted (log s') = persisted (log s) \<and> snapshot s' = snapshot s) \<or>
       (\<exists>evs subject body content error_text.
          log s' = log s @ evs @
            [SendEmail subject body, SaveContent content, SendEmail error_subject error_text] \<and>
          notifications evs = [] \<and> persisted evs = [] \<and>
          (subject = no_changes_subject \<or> subject = changes_subject) \<and>
          (file_write w content = OpenFails e \<and> snapshot s' = snapshot s \<or>
           (\<exists>left. file_write w content = WriteFails e left \<and> snapshot s' = Present left)))"
proof (cases "environ w (ustr ''PDF_URL'')")
  case None
  then show ?thesis by (simp add: main_def)
next
  case (Some pdf_url)
  obtain r s1 where p: "prepare_email w pdf_url s = (r, s1)" by (cases "prepare_email w pdf_url s")
  obtain evs where evs: "log s1 = log s @ evs" "notifications evs = []" "persisted evs = []"
    and snap: "snapshot s1 = snapshot s"
    using prepare_email_log[OF p] by auto
  show ?thesis
  proof (cases r)
    case (Inl e)
    obtain q s2 where h: "send_email w error_subject (error_body w e pdf_url) s1 = (q, s2)"
      by (cases "send_email w error_subject (error_body w e pdf_url) s1")
    have "s2 = emit (SendEmail error_subject (error_body w e pdf_url)) s1"
      by (rule send_email_log[OF h])
    then show ?thesis
      using Some p Inl h evs snap
      by (auto simp: main_def main_try_def emit_def split: sum.splits)
  next
    case (Inr x)
    obtain subject body content where x: "x = (subject, body, content)" by (cases x)
    have subj: "subject = no_changes_subject \<or> subject = changes_subject"
      using prepare_email_subject p Inr x by blast
    obtain q s2 where h: "send_email w subject body s1 = (q, s2)"
      by (cases "send_email w subject body s1")
    have s2: "s2 = emit (SendEmail subject body) s1" by (rule send_email_log[OF h])
    show ?thesis
    proof (cases q)
      case failed: (Inl e)
      obtain q' s3 where h': "send_email w error_subject (error_body w e pdf_url) s2 = (q', s3)"
        by (cases "send_email w error_subject (error_body w e pdf_url) s2")
      have "s3 = emit (SendEmail error_subject (error_body w e pdf_url)) s2"
        by (rule send_email_log[OF h'])
      then show ?thesis
        using Some p Inr x h failed h' s2 evs snap
        by (auto simp: main_def main_try_def emit_def split: sum.splits)
    next
      case sent: (Inr u)
      obtain o3 s3 where sv: "save_current_content w content s2 = (o3, s3)"
        by (cases "save_current_content w content s2")
      have l3: "log s3 = log s @ evs @ [SendEmail subject body, SaveContent content]"
        and out: "case file_write w content of
            Written \<Rightarrow> o3 = Inr () \<and> snapshot s3 = Present content
          | OpenFails e \<Rightarrow> o3 = Inl e \<and> snapshot s3 = snapshot s
          | WriteFails e left \<Rightarrow> o3 = Inl e \<and> snapshot s3 = Present left"
        using save_outcome[OF sv] s2 evs snap
        by (auto simp: emit_def split: write_outcome.splits)
      have mt: "main_try w pdf_url s = (o3, s3)"
        using p Inr x h sent sv by (cases o3) (simp_all add: main_try_def)
      show ?thesis
      proof (cases o3)
        case ok: (Inr u')
        then have "file_write w content = Written" "snapshot s3 = Present content"
          using out by (auto split: write_outcome.splits)
        moreover have "main w s = (Inr (), s3)" using Some mt ok by (simp add: main_def)
        ultimately show ?thesis using l3 evs subj by auto
      next
        case bad: (Inl e)
        have cfg: "q = Inr u \<Longrightarrow> mail_configured w"
          using h by (auto simp: send_email_def mail_configured_def Let_def split: option.splits)
        have "send_email w error_subject (error_body w e pdf_url) s3 =
            (Inr (), emit (SendEmail error_subject (error_body w e pdf_url)) s3)"
          using cfg sent by (simp add: send_email_configured)
        then have m: "main w s = (Inl e, emit (SendEmail error_subject (error_body w e pdf_url)) s3)"
          using Some mt bad by (simp add: main_def)
        have fw: "file_write w content = OpenFails e \<and> snapshot s3 = snapshot s \<or>
           (\<exists>left. file_write w content = WriteFails e left \<and> snapshot s3 = Present left)"
          using out bad by (auto split: write_outcome.splits)
        have "\<exists>evs subject body content error_text.
          log (emit (SendEmail error_subject (error_body w e pdf_url)) s3) = log s @ evs @
            [SendEmail subject body, SaveContent content, SendEmail error_subject error_text] \<and>
          notifications evs = [] \<and> persisted evs = [] \<and>
          (subject = no_changes_subject \<or> subject = changes_subject) \<and>
          (file_write w content = OpenFails e \<and>
             snapshot (emit (SendEmail error_subject (error_body w e pdf_url)) s3) = snapshot s \<or>
           (\<exists>left. file_write w content = WriteFails e left \<and>
             snapshot (emit (SendEmail error_subject (error_body w e pdf_url)) s3) = Present left))"
          apply (rule exI[of _ evs], rule exI[of _ subject], rule exI[of _ body])
          apply (rule exI[of _ content], rule exI[of _ "error_body w e pdf_url"])
          using l3 evs subj fw by (simp add: emit_def)
        then show ?thesis using m by simp
      qed
    qed
  qed
qed

theorem persisting_only_after_notifying_witness:
  "persisted (log (snd (main fetch_fails_world report_snapshot))) = [] \<and>
   snapshot (snd (main fetch_fails_world report_snapshot)) = Present (ustr ''Report v1'')"
  using persisting_only_after_notifying [where w = fetch_fails_world and s = report_snapshot]
  by (simp add: scenario_defs run_defs)

section \<open>The unchanged run and the first run\<close>

text \<open>
  A run that got as far as the prepared email, with the mail settings configured: the
  email, then the save, then the error email if the write raised.
\<close>

lemma main_after_email:
  assumes "environ w (ustr ''PDF_URL'') = Some pdf_url"
    and "prepare_email w pdf_url s = (Inr (subject, body, content), s1)"
    and "mail_configured w"
  shows "\<exists>rest.
           log (snd (main w s)) = log s1 @ [SendEmail subject body, SaveContent content] @ rest \<and>
           summarized rest = [] \<and> api_calls rest = [] \<and>
           (file_write w content = Written \<longrightarrow>
              rest = [] \<and> fst (main w s) = Inr () \<and> snapshot (snd (main w s)) = Present content)"
proof (cases "file_write w content")
  case Written
  then have "main w s = (Inr (), (emit (SaveContent content) (emit (SendEmail subject body) s1))
      \<lparr>snapshot := Present content\<rparr>)"
    using assms by (simp add: main_def main_try_def send_email_configured save_current_content_def)
  then show ?thesis using Written by (simp add: emit_def)
next
  case (OpenFails e)
  then have "main w s = (Inl e, emit (SendEmail error_subject (error_body w e pdf_url))
      (emit (SaveContent content) (emit (SendEmail subject body) s1)))"
    using assms by (simp add: main_def main_try_def send_email_configured save_current_content_def)
  then show ?thesis using OpenFails by (simp add: emit_def)
next
  case (WriteFails e left)
  then have "main w s = (Inl e, emit (SendEmail error_subject (error_body w e pdf_url))
      ((emit (SaveContent content) (emit (SendEmail subject body) s1))\<lparr>snapshot := Present left\<rparr>))"
    using assms by (simp add: main_def main_try_def send_email_configured save_current_content_def)
  then show ?thesis using WriteFails by (simp add: emit_def)
qed

text \<open>
  Every snapshot a returning run leaves is a trimmed text: the stored snapshots of the
  program have no surrounding whitespace.
\<close>

lemma main_writes_stripped:
  assumes "fst (main w s) = Inr ()"
  shows "\<exists>content. snapshot (snd (main w s)) = Present content \<and> strip content = content"
proof -
  obtain pdf_url where u: "environ w (ustr ''PDF_URL'') = Some pdf_url"
    using assms by (cases "environ w (ustr ''PDF_URL'')") (auto simp: main_def)
  obtain r s1 where p: "prepare_email w pdf_url s = (r, s1)" by (cases "prepare_email w pdf_url s")
  obtain subject body content where r: "r = Inr (subject, body, content)"
    using assms u p
    by (cases r) (auto simp: main_def main_try_def split: sum.splits prod.splits)
  obtain q s2 where h: "send_email w subject body s1 = (q, s2)"
    by (cases "send_email w subject body s1")
  obtain o3 s3 where sv: "save_current_content w content s2 = (o3, s3)"
    by (cases "save_current_content w content s2")
  have q: "q = Inr ()" and o3: "o3 = Inr ()" and m: "main w s = (Inr (), s3)"
    using assms u p r h sv
    by (cases q; cases o3; auto simp: main_def main_try_def split: sum.splits prod.splits)+
  have "snapshot s3 = Present content"
    using save_outcome[OF sv] o3 by (auto split: write_outcome.splits)
  moreover have "strip content = content"
    using prepare_email_content p r download_is_stripped by blast
  ultimately show ?thesis using m by simp
qed



text \<open>
  C1, as stated, fails: on a first run with the current text "Hello World" the
  summarizer is called with "Hello World" as its diff, and the request to the
  text-generation service carries it.
\<close>

theorem first_run_passes_current_text_counterexample:
  "load_previous_content no_snapshot = Inr [] \<and>
   summarized (log (snd (main hello_world no_snapshot))) = [ustr ''Hello World''] \<and>
   api_calls (log (snd (main hello_world no_snapshot))) = [prompt (ustr ''Hello World'')]"
  by (simp add: scenario_defs run_defs detect_changes_def)

text \<open>
  C1, amended. On a first run (the previous content loads as the empty string; API key
  and mail settings configured) the email has the subject "PDF Monitor: Changes
  Detected", the summarizer is called once and receives the whole current text as its
  diff, and a request is sent unless that text is empty. When the write of the snapshot
  file succeeds, that email is the only one, the run returns and the current text is
  saved.
\<close>

theorem first_run_summarizes_current_text:
  assumes "environ w (ustr ''PDF_URL'') = Some pdf_url"
    and "download_and_extract_pdf w pdf_url = Inr current_content"
    and "load_previous_content s = Inr []"
    and "environ w (ustr ''CLAUDE_API_KEY'') = Some api_key"
    and "mail_configured w"
  shows "\<exists>analysis later.
           notifications (log (snd (main w s))) =
             notifications (log s) @
             [(ustr ''PDF Monitor: Changes Detected'', changes_body w analysis pdf_url)] @ later \<and>
           summarized (log (snd (main w s))) = summarized (log s) @ [current_content] \<and>
           api_calls (log (snd (main w s))) =
             api_calls (log s) @ (if current_content = [] then [] else [prompt current_content]) \<and>
           (file_write w current_content = Written \<longrightarrow>
              later = [] \<and> fst (main w s) = Inr () \<and>
              snapshot (snd (main w s)) = Present current_content)"
proof -
  have d: "detect_changes [] current_content = (first_run_status, current_content)"
    by (simp add: detect_changes_def)
  obtain analysis s1 where a:
    "analyze_changes_with_claude w current_content current_content s = (Inr analysis, s1)"
    and l: "log s1 = log s @ Summarize current_content #
              (if current_content = [] then [] else [ApiCall (prompt current_content)])"
    using analyze_with_key[OF assms(4), of current_content current_content s] by auto
  have p: "prepare_email w pdf_url s =
      (Inr (changes_subject, changes_body w analysis pdf_url, current_content), s1)"
    using assms(2,3) d a by (simp add: prepare_email_def)
  obtain rest where rest:
    "log (snd (main w s)) =
       log s1 @ [SendEmail changes_subject (changes_body w analysis pdf_url),
                 SaveContent current_content] @ rest"
    "summarized rest = []" "api_calls rest = []"
    "file_write w current_content = Written \<longrightarrow>
       rest = [] \<and> fst (main w s) = Inr () \<and> snapshot (snd (main w s)) = Present current_content"
    using main_after_email[OF assms(1) p assms(5)] by blast
  show ?thesis
    apply (rule exI[of _ analysis], rule exI[of _ "notifications rest"])
    using rest l by (auto simp: changes_subject_def)
qed

theorem first_run_summarizes_current_text_witness:
  "fst (main hello_world no_snapshot) = Inr () \<and>
   notifications (log (snd (main hello_world no_snapshot))) =
     [(ustr ''PDF Monitor: Changes Detected'',
       changes_body hello_world (ustr ''A first version.'') (ustr ''https://example.org/report.pdf''))] \<and>
   summarized (log (snd (main hello_world no_snapshot))) = [ustr ''Hello World''] \<and>
   snapshot (snd (main hello_world no_snapshot)) = Present (ustr ''Hello World'')"
  using first_run_summarizes_current_text [of hello_world "ustr ''https://example.org/report.pdf''"
      "ustr ''Hello World''" no_snapshot "ustr ''key''"]
  by (simp add: scenario_defs run_defs detect_changes_def)

section \<open>The matcher finds true matches, in order\<close>

text \<open>
  Every block of \<open>get_matching_blocks\<close> is a run of equal elements inside both
  sequences, the blocks follow one another without overlap, and so the opcodes of two
  different sequences hold a change, and their unified diff has a hunk.
\<close>

lemma chain_b_loop_sound:
  assumes "chain_b_loop xs i m elt = Some js" and "j \<in> set js"
    and "\<And>e ks k. m e = Some ks \<Longrightarrow> k \<in> set ks \<Longrightarrow> P e k"
    and "\<And>t. t < length xs \<Longrightarrow> P (xs ! t) (i + t)"
  shows "P elt j"
  using assms
proof (induction xs arbitrary: i m)
  case Nil
  then show ?case by simp
next
  case (Cons x xs)
  let ?m = "m(x \<mapsto> (case m x of None \<Rightarrow> [] | Some indices \<Rightarrow> indices) @ [i])"
  have run: "chain_b_loop xs (Suc i) ?m elt = Some js" using Cons.prems(1) by simp
  have old: "\<And>e ks k. ?m e = Some ks \<Longrightarrow> k \<in> set ks \<Longrightarrow> P e k"
  proof -
    fix e ks k assume h: "?m e = Some ks" "k \<in> set ks"
    show "P e k"
    proof (cases "e = x")
      case True
      then have "ks = (case m x of None \<Rightarrow> [] | Some indices \<Rightarrow> indices) @ [i]" using h(1) by simp
      then have "k = i \<or> (\<exists>old. m x = Some old \<and> k \<in> set old)"
        using h(2) by (auto split: option.splits)
      then show ?thesis using True Cons.prems(3) Cons.prems(4)[of 0] by auto
    next
      case False
      then show ?thesis using h Cons.prems(3) by simp
    qed
  qed
  have new: "\<And>t. t < length xs \<Longrightarrow> P (xs ! t) (Suc i + t)"
    using Cons.prems(4)[of "Suc _"] by simp
  show ?case by (rule Cons.IH[OF run Cons.prems(2) old new])
qed

lemma chain_b_sound:
  assumes "chain_b b elt = Some js" and "j \<in> set js"
  shows "j < length b \<and> b ! j = elt"
proof -
  obtain ks where ks: "chain_b_loop b 0 Map.empty elt = Some ks" and sub: "js = ks"
    using assms(1) by (auto simp: chain_b_def Let_def split: if_splits option.splits)
  show ?thesis
    by (rule chain_b_loop_sound[where P = "\<lambda>e k. k < length b \<and> b ! k = e", OF ks])
       (use assms(2) sub in simp_all)
qed

lemma flm_inner_valid:
  assumes "flm_inner js i blo bhi j2len (nj, besti, bestj, bestsize) = (nj', bi', bj', bs')"
    and "alo \<le> i" and "i < ahi"
    and "\<And>j. j \<in> set js \<Longrightarrow> b ! j = a ! i"
    and "\<And>j v. j2len j = Some v \<Longrightarrow>
           v \<le> i - alo \<and> blo \<le> j \<and> v \<le> j + 1 - blo \<and> (\<forall>t<v. a ! (i - 1 - t) = b ! (j - t))"
    and "match_in a b (alo, ahi, blo, bhi) (besti, bestj, bestsize)"
    and "\<And>j v. nj j = Some v \<Longrightarrow>
           v \<le> i + 1 - alo \<and> blo \<le> j \<and> v \<le> j + 1 - blo \<and> (\<forall>t<v. a ! (i - t) = b ! (j - t))"
  shows "match_in a b (alo, ahi, blo, bhi) (bi', bj', bs') \<and>
         (\<forall>j v. nj' j = Some v \<longrightarrow>
           v \<le> i + 1 - alo \<and> blo \<le> j \<and> v \<le> j + 1 - blo \<and> (\<forall>t<v. a ! (i - t) = b ! (j - t)))"
  using assms
proof (induction js arbitrary: nj besti bestj bestsize)
  case Nil
  then show ?case by auto
next
  case (Cons j js)
  have tl: "\<And>j'. j' \<in> set js \<Longrightarrow> b ! j' = a ! i" using Cons.prems(4) by simp
  show ?case
  proof (cases "j < blo")
    case True
    then have "flm_inner js i blo bhi j2len (nj, besti, bestj, bestsize) = (nj', bi', bj', bs')"
      using Cons.prems(1) by simp
    then show ?thesis
      using Cons.IH[of nj besti bestj bestsize] Cons.prems(2,3,5,6,7) tl by blast
  next
    case False
    note nlt = this
    show ?thesis
    proof (cases "j \<ge> bhi")
      case True
      then show ?thesis using nlt Cons.prems by auto
    next
      case False
      define p where "p = (if j = 0 then 0 else (case j2len (j - 1) of None \<Rightarrow> 0 | Some v \<Rightarrow> v))"
      define k where "k = p + 1"
      have hd: "b ! j = a ! i" using Cons.prems(4) by simp
      have p_facts: "p \<le> i - alo \<and> p \<le> j - blo \<and> (\<forall>t<p. a ! (i - 1 - t) = b ! (j - 1 - t))"
      proof (cases "j = 0 \<or> j2len (j - 1) = None")
        case True
        then have "p = 0" by (auto simp: p_def)
        then show ?thesis by simp
      next
        case False
        then obtain v where v: "j \<noteq> 0" "j2len (j - 1) = Some v" by auto
        then have "p = v" by (simp add: p_def)
        moreover have "v \<le> i - alo \<and> blo \<le> j - 1 \<and> v \<le> j - 1 + 1 - blo \<and>
            (\<forall>t<v. a ! (i - 1 - t) = b ! (j - 1 - t))"
          using Cons.prems(5)[OF v(2)] by simp
        ultimately show ?thesis using v(1) by auto
      qed
      have k_le: "k \<le> i + 1 - alo" "k \<le> j + 1 - blo"
        using p_facts Cons.prems(2) nlt by (auto simp: k_def)
      have k_match: "\<forall>t<k. a ! (i - t) = b ! (j - t)"
      proof (intro allI impI)
        fix t assume "t < k"
        show "a ! (i - t) = b ! (j - t)"
        proof (cases t)
          case 0
          then show ?thesis using hd by simp
        next
          case (Suc t')
          then have "t' < p" using \<open>t < k\<close> by (simp add: k_def)
          then have "a ! (i - 1 - t') = b ! (j - 1 - t')" using p_facts by blast
          then show ?thesis using Suc by simp
        qed
      qed
      have nj_upd: "\<And>j' v. (nj(j \<mapsto> k)) j' = Some v \<Longrightarrow>
           v \<le> i + 1 - alo \<and> blo \<le> j' \<and> v \<le> j' + 1 - blo \<and> (\<forall>t<v. a ! (i - t) = b ! (j' - t))"
        using k_le k_match nlt Cons.prems(7) by (auto split: if_splits)
      show ?thesis
      proof (cases "k > bestsize")
        case True
        have run: "flm_inner js i blo bhi j2len (nj(j \<mapsto> k), i + 1 - k, j + 1 - k, k) = (nj', bi', bj', bs')"
          using Cons.prems(1) nlt False True by (simp add: k_def p_def Let_def)
        have "match_in a b (alo, ahi, blo, bhi) (i + 1 - k, j + 1 - k, k)"
        proof -
          have "\<forall>t<k. a ! (i + 1 - k + t) = b ! (j + 1 - k + t)"
          proof (intro allI impI)
            fix t assume t: "t < k"
            then have lt: "k - 1 - t < k" by arith
            have e1: "i - (k - 1 - t) = i + 1 - k + t" using t k_le(1) by arith
            have e2: "j - (k - 1 - t) = j + 1 - k + t" using t k_le(2) by arith
            have "a ! (i - (k - 1 - t)) = b ! (j - (k - 1 - t))" using k_match lt by blast
            then show "a ! (i + 1 - k + t) = b ! (j + 1 - k + t)" unfolding e1 e2 .
          qed
          moreover have "alo \<le> i + 1 - k" "i + 1 - k + k \<le> ahi" "blo \<le> j + 1 - k" "j + 1 - k + k \<le> bhi"
            using k_le Cons.prems(2,3) nlt False by (auto simp: k_def)
          ultimately show ?thesis by (simp add: match_in_def)
        qed
        then show ?thesis
          using Cons.IH[OF run Cons.prems(2,3) tl Cons.prems(5) _ nj_upd] by blast
      next
        case nbig: False
        have run: "flm_inner js i blo bhi j2len (nj(j \<mapsto> k), besti, bestj, bestsize) = (nj', bi', bj', bs')"
          using Cons.prems(1) nlt False nbig by (simp add: k_def p_def Let_def)
        show ?thesis
          using Cons.IH[OF run Cons.prems(2,3) tl Cons.prems(5,6) nj_upd] by blast
      qed
    qed
  qed
qed

lemma flm_outer_valid:
  assumes "flm_outer a b2j [lo..<ahi] blo bhi (j2len, besti, bestj, bestsize) = (bi', bj', bs')"
    and "alo \<le> lo"
    and "\<And>elt js j. b2j elt = Some js \<Longrightarrow> j \<in> set js \<Longrightarrow> b ! j = elt"
    and "\<And>j v. j2len j = Some v \<Longrightarrow>
           v \<le> lo - alo \<and> blo \<le> j \<and> v \<le> j + 1 - blo \<and> (\<forall>t<v. a ! (lo - 1 - t) = b ! (j - t))"
    and "match_in a b (alo, ahi, blo, bhi) (besti, bestj, bestsize)"
  shows "match_in a b (alo, ahi, blo, bhi) (bi', bj', bs')"
  using assms
proof (induction "ahi - lo" arbitrary: lo j2len besti bestj bestsize)
  case 0
  then show ?case by simp
next
  case (Suc d)
  then have lt: "lo < ahi" by arith
  let ?js = "case b2j (a ! lo) of None \<Rightarrow> [] | Some js \<Rightarrow> js"
  obtain nj ci cj cs where inner:
    "flm_inner ?js lo blo bhi j2len (Map.empty, besti, bestj, bestsize) = (nj, ci, cj, cs)"
    by (metis prod_cases4)
  have js: "\<And>j. j \<in> set ?js \<Longrightarrow> b ! j = a ! lo"
  proof -
    fix j assume h: "j \<in> set ?js"
    then obtain js where "b2j (a ! lo) = Some js" "j \<in> set js"
      by (cases "b2j (a ! lo)") auto
    then show "b ! j = a ! lo" by (rule Suc.prems(3))
  qed
  have step: "match_in a b (alo, ahi, blo, bhi) (ci, cj, cs) \<and>
         (\<forall>j v. nj j = Some v \<longrightarrow>
           v \<le> lo + 1 - alo \<and> blo \<le> j \<and> v \<le> j + 1 - blo \<and> (\<forall>t<v. a ! (lo - t) = b ! (j - t)))"
    by (rule flm_inner_valid[OF inner Suc.prems(2) lt js Suc.prems(4) Suc.prems(5)]) simp_all
  have run: "flm_outer a b2j [Suc lo..<ahi] blo bhi (nj, ci, cj, cs) = (bi', bj', bs')"
    using Suc.prems(1) lt inner by (simp add: upt_conv_Cons)
  have d: "d = ahi - Suc lo" using Suc.hyps(2) by arith
  have nj: "\<And>j v. nj j = Some v \<Longrightarrow>
           v \<le> Suc lo - alo \<and> blo \<le> j \<and> v \<le> j + 1 - blo \<and>
           (\<forall>t<v. a ! (Suc lo - 1 - t) = b ! (j - t))"
    using step Suc.prems(2) by auto
  show ?case
    by (rule Suc.hyps(1)[OF d run _ Suc.prems(3) nj]) (use step Suc.prems(2) in auto)
qed

lemma extend_left_valid:
  "extend_left a b alo blo (besti, bestj, bestsize) = (i, j, k) \<Longrightarrow>
   match_in a b (alo, ahi, blo, bhi) (besti, bestj, bestsize) \<Longrightarrow>
   match_in a b (alo, ahi, blo, bhi) (i, j, k)"
proof (induction a b alo blo "(besti, bestj, bestsize)" arbitrary: besti bestj bestsize
    rule: extend_left.induct)
  case (1 a b alo blo besti bestj bestsize)
  show ?case
  proof (cases "besti > alo \<and> bestj > blo \<and> a ! (besti - 1) = b ! (bestj - 1)")
    case True
    then have run: "extend_left a b alo blo (besti - 1, bestj - 1, bestsize + 1) = (i, j, k)"
      using "1.prems"(1) by (simp add: extend_left.simps[of a b alo blo besti])
    have "match_in a b (alo, ahi, blo, bhi) (besti - 1, bestj - 1, bestsize + 1)"
    proof -
      have "\<forall>t<bestsize + 1. a ! (besti - 1 + t) = b ! (bestj - 1 + t)"
      proof (intro allI impI)
        fix t assume "t < bestsize + 1"
        show "a ! (besti - 1 + t) = b ! (bestj - 1 + t)"
        proof (cases t)
          case 0
          then show ?thesis using True by simp
        next
          case (Suc t')
          then have "t' < bestsize" using \<open>t < bestsize + 1\<close> by simp
          then have "a ! (besti + t') = b ! (bestj + t')"
            using "1.prems"(2) by (simp add: match_in_def)
          moreover have "besti - 1 + t = besti + t'" "bestj - 1 + t = bestj + t'"
            using Suc True by simp_all
          ultimately show ?thesis by simp
        qed
      qed
      moreover have "alo \<le> besti - 1" "blo \<le> bestj - 1" "besti - 1 + (bestsize + 1) \<le> ahi"
        "bestj - 1 + (bestsize + 1) \<le> bhi"
        using "1.prems"(2) True by (auto simp: match_in_def)
      ultimately show ?thesis by (simp add: match_in_def)
    qed
    then show ?thesis using "1.hyps"[OF True run] by simp
  next
    case False
    then show ?thesis using "1.prems"
      by (auto simp: extend_left.simps[of a b alo blo besti] split: if_splits)
  qed
qed

lemma extend_right_valid:
  "extend_right a b ahi bhi (besti, bestj, bestsize) = (i, j, k) \<Longrightarrow>
   match_in a b (alo, ahi, blo, bhi) (besti, bestj, bestsize) \<Longrightarrow>
   match_in a b (alo, ahi, blo, bhi) (i, j, k)"
proof (induction a b ahi bhi "(besti, bestj, bestsize)" arbitrary: besti bestj bestsize
    rule: extend_right.induct)
  case (1 a b ahi bhi besti bestj bestsize)
  show ?case
  proof (cases "besti + bestsize < ahi \<and> bestj + bestsize < bhi \<and>
         a ! (besti + bestsize) = b ! (bestj + bestsize)")
    case True
    then have run: "extend_right a b ahi bhi (besti, bestj, bestsize + 1) = (i, j, k)"
      using "1.prems"(1) by (simp add: extend_right.simps[of a b ahi bhi besti])
    have "match_in a b (alo, ahi, blo, bhi) (besti, bestj, bestsize + 1)"
      using "1.prems"(2) True by (auto simp: match_in_def less_Suc_eq)
    then show ?thesis using "1.hyps"[OF True run] by simp
  next
    case False
    then show ?thesis using "1.prems"
      by (auto simp: extend_right.simps[of a b ahi bhi besti] split: if_splits)
  qed
qed

lemma find_longest_match_valid:
  assumes "find_longest_match a b b2j alo ahi blo bhi = (i, j, k)"
    and "alo \<le> ahi" and "blo \<le> bhi"
    and "\<And>elt js j. b2j elt = Some js \<Longrightarrow> j \<in> set js \<Longrightarrow> b ! j = elt"
  shows "match_in a b (alo, ahi, blo, bhi) (i, j, k)"
proof -
  obtain i0 j0 k0 where o: "flm_outer a b2j [alo..<ahi] blo bhi (Map.empty, alo, blo, 0) = (i0, j0, k0)"
    by (metis prod_cases3)
  obtain i1 j1 k1 where l: "extend_left a b alo blo (i0, j0, k0) = (i1, j1, k1)"
    by (metis prod_cases3)
  have r: "extend_right a b ahi bhi (i1, j1, k1) = (i, j, k)"
    using assms(1) o l by (simp add: find_longest_match_def)
  have "match_in a b (alo, ahi, blo, bhi) (i0, j0, k0)"
    by (rule flm_outer_valid[OF o _ assms(4)]) (use assms(2,3) in \<open>simp_all add: match_in_def\<close>)
  then have "match_in a b (alo, ahi, blo, bhi) (i1, j1, k1)" by (rule extend_left_valid[OF l])
  then show ?thesis by (rule extend_right_valid[OF r])
qed

lemma apart_sym: "apart x y \<Longrightarrow> apart y x"
  by (auto simp: apart_def)

lemma apart_inside: "apart x w \<Longrightarrow> inside v w \<Longrightarrow> apart x v"
  by (cases x; cases w; cases v) (auto simp: apart_def before_def inside_def)

lemma mb_inv_step:
  assumes inv: "mb_inv a b ((alo, ahi, blo, bhi) # queue) acc"
    and m: "match_in a b (alo, ahi, blo, bhi) (i, j, k)" and k: "k \<noteq> 0"
  shows "mb_inv a b
           ((if i + k < ahi \<and> j + k < bhi then [(i + k, ahi, j + k, bhi)] else []) @
            (if alo < i \<and> blo < j then [(alo, i, blo, j)] else []) @ queue)
           (acc @ [(i, j, k)])"
proof -
  let ?w = "(alo, ahi, blo, bhi)"
  let ?rt = "(i + k, ahi, j + k, bhi)" and ?lt = "(alo, i, blo, j)" and ?wm = "window_of (i, j, k)"
  let ?old = "queue @ map window_of acc"
  have mi: "alo \<le> i" "i + k \<le> ahi" "blo \<le> j" "j + k \<le> bhi"
    and eq: "\<forall>t<k. a ! (i + t) = b ! (j + t)"
    using m by (simp_all add: match_in_def)
  have w_in: "inside ?w (0, length a, 0, length b)"
    using inv by (simp add: mb_inv_def)
  have old_sorted: "sorted_wrt apart ?old" and old_w: "\<forall>x \<in> set ?old. apart ?w x"
    using inv by (simp_all add: mb_inv_def)
  have ins: "inside ?rt ?w" "inside ?lt ?w" "inside ?wm ?w"
    using mi by (simp_all add: inside_def window_of_def)
  have old_new: "\<forall>x \<in> set ?old. apart x ?rt \<and> apart x ?lt \<and> apart x ?wm"
    using old_w ins by (meson apart_inside apart_sym)
  have among: "apart ?rt ?lt" "apart ?rt ?wm" "apart ?lt ?wm"
    by (simp_all add: apart_def before_def window_of_def)
  have s1: "sorted_wrt apart (?old @ [?wm])"
    using old_sorted old_new by (simp add: sorted_wrt_append)
  have s2: "sorted_wrt apart
      ((if i + k < ahi \<and> j + k < bhi then [?rt] else []) @
       (if alo < i \<and> blo < j then [?lt] else []) @ ?old @ [?wm])"
    using s1 old_new among by (auto simp: sorted_wrt_append intro: apart_sym)
  have q: "\<forall>w \<in> set ((if i + k < ahi \<and> j + k < bhi then [?rt] else []) @
            (if alo < i \<and> blo < j then [?lt] else []) @ queue).
        inside w (0, length a, 0, length b) \<and>
         (case w of (alo, ahi, blo, bhi) \<Rightarrow> alo \<le> ahi \<and> blo \<le> bhi)"
    using inv w_in mi by (auto simp: mb_inv_def inside_def)
  have "match_in a b (0, length a, 0, length b) (i, j, k)"
    using w_in mi eq by (simp add: match_in_def inside_def)
  then have r: "\<forall>m \<in> set (acc @ [(i, j, k)]).
      match_in a b (0, length a, 0, length b) m \<and> 0 < snd (snd m)"
    using inv k by (auto simp: mb_inv_def)
  show ?thesis
    unfolding mb_inv_def using s2 q r by simp
qed

lemma mb_inv_skip: "mb_inv a b (w # queue) acc \<Longrightarrow> mb_inv a b queue acc"
  by (auto simp: mb_inv_def)

lemma mb_loop_inv:
  assumes "mb_inv a b queue acc"
    and "\<And>elt js j. b2j elt = Some js \<Longrightarrow> j \<in> set js \<Longrightarrow> b ! j = elt"
  shows "mb_inv a b [] (mb_loop a b b2j queue acc)"
  using assms
proof (induction a b b2j queue acc rule: mb_loop.induct)
  case (1 a b b2j matching_blocks)
  then show ?case by (simp add: mb_loop.simps)
next
  case (2 a b b2j alo ahi blo bhi queue matching_blocks)
  obtain i j k where f: "find_longest_match a b b2j alo ahi blo bhi = (i, j, k)"
    by (metis prod_cases3)
  have w: "alo \<le> ahi" "blo \<le> bhi" using "2.prems"(1) by (simp_all add: mb_inv_def)
  have m: "match_in a b (alo, ahi, blo, bhi) (i, j, k)"
    by (rule find_longest_match_valid[OF f w "2.prems"(2)])
  show ?case
  proof (cases "k = 0")
    case True
    then have nk: "\<not> k \<noteq> 0" by simp
    have "mb_inv a b [] (mb_loop a b b2j queue matching_blocks)"
      by (rule "2.IH"(2)[OF f[symmetric] refl nk mb_inv_skip[OF "2.prems"(1)] "2.prems"(2)])
    then show ?thesis using f True by (simp add: mb_loop.simps)
  next
    case False
    have "mb_inv a b []
        (mb_loop a b b2j
           ((if i + k < ahi \<and> j + k < bhi then [(i + k, ahi, j + k, bhi)] else []) @
            (if alo < i \<and> blo < j then [(alo, i, blo, j)] else []) @ queue)
           (matching_blocks @ [(i, j, k)]))"
      by (rule "2.IH"(1)[OF f[symmetric] refl False mb_inv_step[OF "2.prems"(1) m False]
            "2.prems"(2)])
    then show ?thesis using f False by (simp add: mb_loop.simps)
  qed
qed

lemma block_before_iff:
  "block_before (i, j, k) (i', j', k') \<longleftrightarrow> i + k \<le> i' \<and> j + k \<le> j'"
  by (simp add: block_before_def before_def window_of_def)

lemma apart_blocks_distinct:
  assumes "sorted_wrt apart (map window_of res)" and "\<forall>m \<in> set res. 0 < snd (snd m)"
  shows "distinct res \<and>
         (\<forall>x \<in> set res. \<forall>y \<in> set res. x \<noteq> y \<longrightarrow> block_before x y \<or> block_before y x)"
  using assms
proof (induction res)
  case Nil
  then show ?case by simp
next
  case (Cons x xs)
  have ap: "\<forall>y \<in> set xs. apart (window_of x) (window_of y)" using Cons.prems(1) by simp
  have kx: "0 < snd (snd x)" using Cons.prems(2) by simp
  have "x \<notin> set xs"
  proof
    assume "x \<in> set xs"
    then have "apart (window_of x) (window_of x)" using ap by blast
    then show False using kx by (cases x) (auto simp: apart_def before_def window_of_def)
  qed
  moreover have "\<forall>y \<in> set xs. block_before x y \<or> block_before y x"
    using ap by (auto simp: apart_def block_before_def)
  ultimately show ?case using Cons by auto
qed

lemma sorted_blocks_in_order:
  assumes "sorted_wrt apart (map window_of res)" and "\<forall>m \<in> set res. 0 < snd (snd m)"
  shows "sorted_wrt block_before (sort res)"
proof -
  have d: "distinct (sort res)"
    and c: "\<forall>x \<in> set (sort res). \<forall>y \<in> set (sort res). x \<noteq> y \<longrightarrow> block_before x y \<or> block_before y x"
    using apart_blocks_distinct[OF assms] by simp_all
  have "block_before (sort res ! p) (sort res ! q)" if "p < q" "q < length (sort res)" for p q
  proof -
    let ?x = "sort res ! p" and ?y = "sort res ! q"
    have "sorted (sort res)" by simp
    then have le: "?x \<le> ?y" using that by (simp add: sorted_nth_mono)
    have ne: "?x \<noteq> ?y" using that d by (simp add: nth_eq_iff_index_eq)
    have "p < length (sort res)" using that by simp
    then have mx: "?x \<in> set (sort res)" by (rule nth_mem)
    have my: "?y \<in> set (sort res)" using that(2) by (rule nth_mem)
    note mem = mx my
    have ky: "0 < snd (snd ?y)" using mem(2) assms(2) by simp
    have "\<not> block_before ?y ?x"
    proof
      assume bb: "block_before ?y ?x"
      have "fst ?y < fst ?x"
        using bb ky by (cases ?x; cases ?y) (auto simp: block_before_iff)
      moreover have "fst ?x \<le> fst ?y" using le by (auto simp: less_eq_prod_def)
      ultimately show False by simp
    qed
    then show ?thesis using c mem ne by blast
  qed
  then show ?thesis by (simp add: sorted_wrt_iff_nth_less)
qed

lemma match_in_join:
  assumes "match_in a b w (i1, j1, k1)" and "match_in a b w (i1 + k1, j1 + k1, k2)"
  shows "match_in a b w (i1, j1, k1 + k2)"
proof -
  have "a ! (i1 + t) = b ! (j1 + t)" if "t < k1 + k2" for t
  proof (cases "t < k1")
    case True
    then show ?thesis using assms(1) by (cases w) (simp add: match_in_def)
  next
    case False
    then have "t - k1 < k2" using that by arith
    then have "a ! (i1 + k1 + (t - k1)) = b ! (j1 + k1 + (t - k1))"
      using assms(2) by (cases w) (simp add: match_in_def)
    then show ?thesis using False by simp
  qed
  then show ?thesis using assms by (cases w) (auto simp: match_in_def)
qed

lemma block_before_start:
  "block_before x (i, j, k) \<Longrightarrow> block_before x (i, j, k')"
  by (cases x) (simp add: block_before_iff)

lemma block_before_end:
  "block_before (i2, j2, k2) y \<Longrightarrow> i1 + k1 = i2 \<Longrightarrow> j1 + k1 = j2 \<Longrightarrow>
   block_before (i1, j1, k1 + k2) y"
  by (cases y) (auto simp: block_before_iff)

lemma collapse_ok:
  assumes "sorted_wrt block_before (pending non_adjacent (i1, j1, k1) blocks)"
    and "\<forall>m \<in> set (pending non_adjacent (i1, j1, k1) blocks). block_ok a b m"
  shows "sorted_wrt block_before (collapse blocks (i1, j1, k1) non_adjacent) \<and>
         (\<forall>m \<in> set (collapse blocks (i1, j1, k1) non_adjacent). block_ok a b m)"
  using assms
proof (induction blocks arbitrary: i1 j1 k1 non_adjacent)
  case Nil
  then show ?case by (cases "k1 = 0") (simp_all add: pending_def)
next
  case (Cons blk blocks)
  obtain i2 j2 k2 where blk: "blk = (i2, j2, k2)" by (cases blk)
  have ok2: "block_ok a b (i2, j2, k2)" using Cons.prems(2) blk by (simp add: pending_def)
  then have k2: "k2 \<noteq> 0" by (simp add: block_ok_def)
  show ?case
  proof (cases "i1 + k1 = i2 \<and> j1 + k1 = j2")
    case True
    have step: "collapse (blk # blocks) (i1, j1, k1) non_adjacent =
        collapse blocks (i1, j1, k1 + k2) non_adjacent"
      using True blk by simp
    have p: "pending non_adjacent (i1, j1, k1 + k2) blocks =
        non_adjacent @ [(i1, j1, k1 + k2)] @ blocks"
      using k2 by (simp add: pending_def)
    have s: "sorted_wrt block_before (non_adjacent @ [(i1, j1, k1 + k2)] @ blocks)"
    proof (cases "k1 = 0")
      case k0: True
      then have "(i1, j1, k1 + k2) = (i2, j2, k2)" using True by simp
      then show ?thesis using Cons.prems(1) blk k0 by (simp add: pending_def)
    next
      case False
      then have old: "sorted_wrt block_before (non_adjacent @ [(i1, j1, k1)] @ (i2, j2, k2) # blocks)"
        using Cons.prems(1) blk by (simp add: pending_def)
      have n: "sorted_wrt block_before non_adjacent" "sorted_wrt block_before blocks"
        and n1: "\<forall>x \<in> set non_adjacent. block_before x (i1, j1, k1)"
        and nb: "\<forall>x \<in> set non_adjacent. \<forall>y \<in> set blocks. block_before x y"
        and b2: "\<forall>y \<in> set blocks. block_before (i2, j2, k2) y"
        using old by (simp_all add: sorted_wrt_append)
      have "\<forall>x \<in> set non_adjacent. block_before x (i1, j1, k1 + k2)"
        using n1 block_before_start by blast
      moreover have "\<forall>y \<in> set blocks. block_before (i1, j1, k1 + k2) y"
        using b2 True block_before_end by blast
      ultimately show ?thesis using n nb by (simp add: sorted_wrt_append)
    qed
    have o: "block_ok a b (i1, j1, k1 + k2)"
    proof (cases "k1 = 0")
      case k0: True
      then have "(i1, j1, k1 + k2) = (i2, j2, k2)" using True by simp
      then show ?thesis using ok2 by simp
    next
      case False
      then have "block_ok a b (i1, j1, k1)" using Cons.prems(2) by (simp add: pending_def)
      moreover have "match_in a b (0, length a, 0, length b) (i1 + k1, j1 + k1, k2)"
        using ok2 True by (simp add: block_ok_def)
      ultimately have "match_in a b (0, length a, 0, length b) (i1, j1, k1 + k2)"
        using match_in_join[of a b "(0, length a, 0, length b)" i1 j1 k1 k2]
        by (simp add: block_ok_def)
      then show ?thesis using k2 by (simp add: block_ok_def)
    qed
    have rest: "\<forall>m \<in> set non_adjacent \<union> set blocks. block_ok a b m"
      using Cons.prems(2) by (simp add: pending_def) blast
    have a2: "\<forall>m \<in> set (pending non_adjacent (i1, j1, k1 + k2) blocks). block_ok a b m"
      unfolding p using rest o by simp
    have a1: "sorted_wrt block_before (pending non_adjacent (i1, j1, k1 + k2) blocks)"
      unfolding p by (rule s)
    show ?thesis unfolding step by (rule Cons.IH[OF a1 a2])
  next
    case False
    define na where "na = (if k1 \<noteq> 0 then non_adjacent @ [(i1, j1, k1)] else non_adjacent)"
    have step: "collapse (blk # blocks) (i1, j1, k1) non_adjacent = collapse blocks (i2, j2, k2) na"
      using False blk by (auto simp: na_def)
    have p: "pending na (i2, j2, k2) blocks = pending non_adjacent (i1, j1, k1) (blk # blocks)"
      using k2 blk by (simp add: pending_def na_def)
    have a1: "sorted_wrt block_before (pending na (i2, j2, k2) blocks)"
      unfolding p by (rule Cons.prems(1))
    have a2: "\<forall>m \<in> set (pending na (i2, j2, k2) blocks). block_ok a b m"
      unfolding p by (rule Cons.prems(2))
    show ?thesis unfolding step by (rule Cons.IH[OF a1 a2])
  qed
qed

lemma get_matching_blocks_ok:
  "\<exists>bs. get_matching_blocks a b = bs @ [(length a, length b, 0)] \<and>
        sorted_wrt block_before bs \<and> (\<forall>m \<in> set bs. block_ok a b m)"
proof -
  define res where "res = mb_loop a b (chain_b b) [(0, length a, 0, length b)] []"
  have "mb_inv a b [(0, length a, 0, length b)] []"
    by (simp add: mb_inv_def inside_def)
  moreover have "\<And>elt js j. chain_b b elt = Some js \<Longrightarrow> j \<in> set js \<Longrightarrow> b ! j = elt"
    by (rule chain_b_sound[THEN conjunct2])
  ultimately have inv: "mb_inv a b [] res"
    unfolding res_def by (rule mb_loop_inv)
  have ok: "\<forall>m \<in> set res. block_ok a b m"
    using inv by (simp add: mb_inv_def block_ok_def)
  have srt: "sorted_wrt block_before (sort res)"
    by (rule sorted_blocks_in_order) (use inv in \<open>simp_all add: mb_inv_def\<close>)
  have "sorted_wrt block_before (collapse (sort res) (0, 0, 0) []) \<and>
         (\<forall>m \<in> set (collapse (sort res) (0, 0, 0) []). block_ok a b m)"
    by (rule collapse_ok) (use srt ok in \<open>simp_all add: pending_def\<close>)
  then show ?thesis unfolding get_matching_blocks_def Let_def res_def by blast
qed

lemma opcodes_all_equal:
  assumes "sorted_wrt block_before bs" and "\<forall>m \<in> set bs. block_ok a b m"
    and "\<forall>m \<in> set bs. i \<le> fst m \<and> j \<le> fst (snd m)"
    and "i \<le> length a" and "j \<le> length b"
    and "\<forall>c \<in> set (opcodes_loop (bs @ [(length a, length b, 0)]) i j). fst c = Equal"
  shows "drop i a = drop j b"
  using assms
proof (induction bs arbitrary: i j)
  case Nil
  then have "\<not> i < length a" "\<not> j < length b" by (auto split: if_splits)
  then show ?case using Nil.prems(4,5) by simp
next
  case (Cons blk bs)
  obtain ai bj sz where blk: "blk = (ai, bj, sz)" by (cases blk)
  have ok: "block_ok a b (ai, bj, sz)" using Cons.prems(2) blk by simp
  then have bounds: "ai + sz \<le> length a" "bj + sz \<le> length b"
    and eq: "\<forall>t<sz. a ! (ai + t) = b ! (bj + t)"
    by (simp_all add: block_ok_def match_in_def)
  have "\<not> i < ai" "\<not> j < bj"
    using Cons.prems(6) blk by (auto split: if_splits)
  moreover have "i \<le> ai" "j \<le> bj" using Cons.prems(3) blk by simp_all
  ultimately have here: "i = ai" "j = bj" by simp_all
  have later: "\<forall>m \<in> set bs. ai + sz \<le> fst m \<and> bj + sz \<le> fst (snd m)"
  proof
    fix m assume "m \<in> set bs"
    then have "block_before (ai, bj, sz) m" using Cons.prems(1) blk by simp
    then show "ai + sz \<le> fst m \<and> bj + sz \<le> fst (snd m)"
      by (cases m) (simp add: block_before_iff)
  qed
  have rest: "\<forall>c \<in> set (opcodes_loop (bs @ [(length a, length b, 0)]) (ai + sz) (bj + sz)).
      fst c = Equal"
    using Cons.prems(6) blk by simp
  have tl: "drop (ai + sz) a = drop (bj + sz) b"
    by (rule Cons.IH[OF _ _ later bounds rest]) (use Cons.prems(1,2) in simp_all)
  have "take sz (drop ai a) = take sz (drop bj b)"
    by (rule nth_equalityI) (use bounds eq in simp_all)
  moreover have "drop ai a = take sz (drop ai a) @ drop (ai + sz) a"
    by (metis append_take_drop_id drop_drop add.commute)
  moreover have "drop bj b = take sz (drop bj b) @ drop (bj + sz) b"
    by (metis append_take_drop_id drop_drop add.commute)
  ultimately show ?case using tl here by metis
qed

lemma get_opcodes_differ:
  assumes "a \<noteq> b"
  shows "\<exists>c \<in> set (get_opcodes a b). fst c \<noteq> Equal"
proof (rule ccontr)
  assume "\<not> ?thesis"
  then have all: "\<forall>c \<in> set (get_opcodes a b). fst c = Equal" by blast
  obtain bs where bs: "get_matching_blocks a b = bs @ [(length a, length b, 0)]"
    "sorted_wrt block_before bs" "\<forall>m \<in> set bs. block_ok a b m"
    using get_matching_blocks_ok[of a b] by blast
  have "drop 0 a = drop 0 b"
    by (rule opcodes_all_equal[OF bs(2,3)]) (use all bs(1) in \<open>simp_all add: get_opcodes_def\<close>)
  then show False using assms by simp
qed

lemma group_loop_nonempty:
  "\<exists>c \<in> set grp \<union> set codes. fst c \<noteq> Equal \<Longrightarrow> group_loop n codes grp \<noteq> []"
proof (induction codes arbitrary: grp)
  case Nil
  then obtain c where c: "c \<in> set grp" "fst c \<noteq> Equal" by auto
  then have "grp \<noteq> []" by auto
  moreover have "\<not> (length grp = 1 \<and> fst (hd grp) = Equal)"
  proof
    assume h: "length grp = 1 \<and> fst (hd grp) = Equal"
    then obtain x where "grp = [x]" by (cases grp) auto
    then show False using h c by simp
  qed
  ultimately show ?case by simp
next
  case (Cons code codes)
  obtain tag i1 i2 j1 j2 where code: "code = (tag, i1, i2, j1, j2)" by (cases code)
  show ?case
  proof (cases "tag = Equal \<and> i2 - i1 > n + n")
    case True
    then show ?thesis using code by simp
  next
    case False
    have "\<exists>c \<in> set (grp @ [code]) \<union> set codes. fst c \<noteq> Equal" using Cons.prems by auto
    then have "group_loop n codes (grp @ [code]) \<noteq> []" by (rule Cons.IH)
    then show ?thesis using False code by auto
  qed
qed

lemma fix_first_keeps:
  assumes "\<exists>c \<in> set codes. fst c \<noteq> Equal"
  shows "\<exists>c \<in> set (fix_first n codes). fst c \<noteq> Equal"
proof -
  from assms obtain c where c: "c \<in> set codes" "fst c \<noteq> Equal" by blast
  then obtain code rest where codes: "codes = code # rest" by (cases codes) auto
  obtain tag i1 i2 j1 j2 where code: "code = (tag, i1, i2, j1, j2)" by (cases code)
  show ?thesis
  proof (cases "tag = Equal")
    case True
    then have "c \<in> set rest" using c codes code by auto
    then show ?thesis using True codes code c(2) by (auto simp: fix_first_def)
  next
    case False
    then have "fix_first n codes = codes" using codes code by (cases tag) (simp_all add: fix_first_def)
    then show ?thesis using assms by simp
  qed
qed

lemma fix_last_keeps:
  assumes "\<exists>c \<in> set codes. fst c \<noteq> Equal"
  shows "\<exists>c \<in> set (fix_last n codes). fst c \<noteq> Equal"
proof -
  from assms obtain c where c: "c \<in> set codes" "fst c \<noteq> Equal" by blast
  then have ne: "codes \<noteq> []" by auto
  obtain tag i1 i2 j1 j2 where l: "last codes = (tag, i1, i2, j1, j2)" by (cases "last codes")
  show ?thesis
  proof (cases "tag = Equal")
    case True
    then have "c \<noteq> last codes" using c l by auto
    then have "c \<in> set (butlast codes)"
      using c(1) ne by (metis append_butlast_last_id in_set_conv_decomp_first rotate1.simps(2) set_ConsD set_rotate1)
    then show ?thesis using True l c(2) by (auto simp: fix_last_def)
  next
    case False
    then have "fix_last n codes = codes" using l by (cases tag) (simp_all add: fix_last_def)
    then show ?thesis using assms by simp
  qed
qed

lemma get_grouped_opcodes_differ:
  assumes "a \<noteq> b"
  shows "get_grouped_opcodes a b n \<noteq> []"
proof -
  have d: "\<exists>c \<in> set (get_opcodes a b). fst c \<noteq> Equal" by (rule get_opcodes_differ[OF assms])
  then have "get_opcodes a b \<noteq> []" by auto
  then have "get_grouped_opcodes a b n =
      group_loop n (fix_last n (fix_first n (get_opcodes a b))) []"
    by (simp add: get_grouped_opcodes_def Let_def)
  moreover have "\<exists>c \<in> set [] \<union> set (fix_last n (fix_first n (get_opcodes a b))). fst c \<noteq> Equal"
    using fix_last_keeps[OF fix_first_keeps[OF d]] by simp
  ultimately show ?thesis using group_loop_nonempty by metis
qed

lemma concat_splitlines_from: "concat (splitlines_from line s) = line @ s"
  by (induction line s rule: splitlines_from.induct) (auto split: list.splits)

lemma concat_splitlines: "concat (splitlines s) = s"
  by (simp add: splitlines_def concat_splitlines_from)

lemma unified_diff_of_differing_lines:
  assumes "a \<noteq> b"
  shows "\<exists>rest. concat (unified_diff a b fromfile tofile lineterm) =
           ustr ''--- '' @ fromfile @ lineterm @ ustr ''+++ '' @ tofile @ lineterm @
           ustr ''@@ -'' @ rest"
proof -
  obtain g gs where g: "get_grouped_opcodes a b 3 = g # gs"
    using get_grouped_opcodes_differ[OF assms, of 3] by (cases "get_grouped_opcodes a b 3") auto
  obtain h where "hunk a b lineterm g = (ustr ''@@ -'' @ h) # concat (map (opcode_lines a b) g)"
    by (cases "hd g"; cases "last g") (simp add: hunk_def)
  then show ?thesis using g by (simp add: unified_diff_def)
qed

section \<open>The diff of two changed texts\<close>

text \<open>
  For all texts that are distinct after trimming, with a non-empty previous text, the
  detector returns "Changes detected" with a diff text that is not empty. The program
  asks \<open>unified_diff\<close> for lines without terminator (\<open>lineterm=''\<close>), gives it lines that
  keep theirs, and joins what it yields with nothing between: in every such diff text
  the two header lines and the first \<open>@@\<close> line run together on one line.
\<close>

lemma changed_texts_diff_runs_together:
  assumes "A \<noteq> []" and "strip A \<noteq> strip B"
  shows "fst (detect_changes A B) = changes_status \<and>
         (\<exists>rest. snd (detect_changes A B) =
            ustr ''--- Previous Week+++ Current Week@@ -'' @ rest)"
proof -
  have d: "detect_changes A B =
           (changes_status,
            concat (unified_diff (splitlines A) (splitlines B)
                      (ustr ''Previous Week'') (ustr ''Current Week'') []))"
    using assms by (simp add: detect_changes_def)
  have "A \<noteq> B" using assms(2) by auto
  then have "splitlines A \<noteq> splitlines B" by (metis concat_splitlines)
  then obtain rest where
    "concat (unified_diff (splitlines A) (splitlines B)
       (ustr ''Previous Week'') (ustr ''Current Week'') []) =
     ustr ''--- '' @ ustr ''Previous Week'' @ [] @ ustr ''+++ '' @ ustr ''Current Week'' @ [] @
     ustr ''@@ -'' @ rest"
    using unified_diff_of_differing_lines by blast
  then have "concat (unified_diff (splitlines A) (splitlines B)
       (ustr ''Previous Week'') (ustr ''Current Week'') []) =
     ustr ''--- Previous Week+++ Current Week@@ -'' @ rest"
    by (simp add: ustr_def)
  then show ?thesis using d by simp
qed

text \<open>Two texts of one line each, and different: one hunk that replaces the line.\<close>

lemma chain_b_single: "chain_b [y] = [y \<mapsto> [0]]"
  by (simp add: chain_b_def)

lemma flm_single:
  "x \<noteq> y \<Longrightarrow> find_longest_match [x] [y] [y \<mapsto> [0]] 0 (Suc 0) 0 (Suc 0) = (0, 0, 0)"
  by (simp add: find_longest_match_def extend_left.simps extend_right.simps)

lemma grouped_single:
  "x \<noteq> y \<Longrightarrow> get_grouped_opcodes [x] [y] 3 = [[(Replace, 0, 1, 0, 1)]]"
  by (simp add: get_grouped_opcodes_def get_opcodes_def get_matching_blocks_def chain_b_single
      mb_loop.simps flm_single fix_first_def fix_last_def)

lemma str_nat_1: "str_nat (Suc 0) = [49]"
  by (simp add: str_nat.simps)

lemma unified_diff_single:
  "x \<noteq> y \<Longrightarrow> unified_diff [x] [y] fromfile tofile lineterm =
     [ustr ''--- '' @ fromfile @ lineterm, ustr ''+++ '' @ tofile @ lineterm,
      ustr ''@@ -1 +1 @@'' @ lineterm, ustr ''-'' @ x, ustr ''+'' @ y]"
  by (simp add: unified_diff_def grouped_single hunk_def format_range_unified_def slice_def
      str_nat_1 ustr_def)

lemma splitlines_a: "splitlines (ustr ''a'') = [ustr ''a'']" "splitlines (ustr ''b'') = [ustr ''b'']"
  by (simp_all add: splitlines_def ustr_def is_linebreak_def)

lemma strip_a: "strip (ustr ''a'') = ustr ''a''" "strip (ustr ''b'') = ustr ''b''"
  by (simp_all add: strip_def isspace_def ustr_def)

lemma detect_changes_a_b:
  "detect_changes (ustr ''a'') (ustr ''b'') =
     (ustr ''Changes detected'', ustr ''--- Previous Week+++ Current Week@@ -1 +1 @@-a+b'')"
proof -
  have "unified_diff [ustr ''a''] [ustr ''b''] (ustr ''Previous Week'') (ustr ''Current Week'') [] =
     [ustr ''--- Previous Week'', ustr ''+++ Current Week'', ustr ''@@ -1 +1 @@'', ustr ''-a'',
      ustr ''+b'']"
    by (simp add: unified_diff_single) (simp add: ustr_def)
  then show ?thesis
    by (simp add: detect_changes_def splitlines_a strip_a changes_status_def) (simp add: ustr_def)
qed

lemma apply_glued_diff:
  "apply_unified_diff (ustr ''--- Previous Week+++ Current Week@@ -1 +1 @@-a+b'') (ustr ''a'') = None"
  by (simp add: apply_unified_diff_def lf_lines_def ustr_def)

text \<open>
  The patch application is not vacuous, and the library's diff does apply when its
  lines are terminated: for the lines "a" and "b" with their line feeds, the diff
  that \<open>unified_diff\<close> yields with a line feed as \<open>lineterm\<close>, joined, turns the one
  text into the other.
\<close>

lemma apply_terminated_diff:
  "apply_unified_diff
     (concat (unified_diff [ustr ''a'' @ [10]] [ustr ''b'' @ [10]]
                (ustr ''Previous Week'') (ustr ''Current Week'') [10]))
     (ustr ''a'' @ [10]) = Some (ustr ''b'' @ [10])"
proof -
  have "ustr ''a'' @ [10] \<noteq> ustr ''b'' @ [10]" by (simp add: ustr_def)
  then have "concat (unified_diff [ustr ''a'' @ [10]] [ustr ''b'' @ [10]]
                (ustr ''Previous Week'') (ustr ''Current Week'') [10]) =
      ustr ''--- Previous Week'' @ [10] @ ustr ''+++ Current Week'' @ [10] @
      ustr ''@@ -1 +1 @@'' @ [10] @ ustr ''-a'' @ [10] @ ustr ''+b'' @ [10]"
    by (simp add: unified_diff_single) (simp add: ustr_def)
  then show ?thesis
    by (simp add: apply_unified_diff_def lf_lines_def ustr_def parse_hunk_header_def
        parse_range_def parse_nat_def is_digit_def digits_value_def)
qed

text \<open>
  C9. For the texts "a" and "b", distinct after trimming and the first non-empty, the
  detector returns "Changes detected", but its diff text is the five lines of the
  unified diff run together, none ending in a line feed. No hunk can be read from it,
  and applying it to "a" does not reproduce "b": here the program does not do what the
  claim says.
\<close>

theorem glued_diff_does_not_apply:
  "ustr ''a'' \<noteq> [] \<and> strip (ustr ''a'') \<noteq> strip (ustr ''b'') \<and>
   detect_changes (ustr ''a'') (ustr ''b'') =
     (changes_status, ustr ''--- Previous Week+++ Current Week@@ -1 +1 @@-a+b'') \<and>
   apply_unified_diff (snd (detect_changes (ustr ''a'') (ustr ''b''))) (ustr ''a'') \<noteq>
     Some (ustr ''b'')"
  by (simp add: detect_changes_a_b apply_glued_diff strip_a changes_status_def)

end
